theory Spec2Isabelle
  imports Main "HOL-Library.Signed_Division"
begin

section \<open>The parallel ufunc engine of numbapro/vectorize/parallel.py\<close>

text \<open>
  The source is a code generator: each method of \<open>ParallelUFunc\<close> and \<open>UFuncCore\<close>
  emits the machine code of the dispatcher and of the worker thread. The embedding below is
  the program those methods emit. Values of type \<open>intp\<close> are modelled by \<open>int\<close>; the
  invariants proved further down bound every such value by the batch size, so no machine
  arithmetic wraps for a batch size within the machine range. The one narrowing cast of the
  source (\<open>N.cast(num_thread.type)\<close>) is written out.
\<close>

subsection \<open>Constants and structures\<close>

definition GRANULARITY :: int where
  "GRANULARITY = 256"

record WorkQueue =
  wq_next :: int
  wq_last :: int
  wq_lock :: int

text \<open>
  \<open>ContextCommon\<close>. The field \<open>workqueues\<close> of the source points at the dispatcher's
  array; here that array is a component of the machine state. The pointer arrays \<open>args\<close>
  and \<open>steps\<close> are kept as lists of addresses and strides.
\<close>

record ContextCommon =
  args :: "int list"
  dimensions :: "int list"
  steps :: "int list"
  data :: int
  num_thread :: int

text \<open>\<open>Context\<close>: the field \<open>common\<close> is the shared record of the state.\<close>

record Context =
  ctx_id :: nat
  completed :: int

datatype error = OutOfBounds int nat | Unreachable

subsection \<open>The dispatcher: \<open>ParallelUFunc.body\<close> and its helpers\<close>

definition cast_int :: "int \<Rightarrow> int" where
  "cast_int x = signed_take_bit 31 x"

text \<open>Lines 139 to 147: the chunk size and the number of threads.\<close>

definition chunking :: "int \<Rightarrow> int \<Rightarrow> int \<times> int" where
  "chunking N ThreadCount =
     (let ChunkSize = N sdiv ThreadCount
      in if ChunkSize = 0 then (1, cast_int N) else (ChunkSize, ThreadCount))"

text \<open>A write through an index into an array of known length; outside the array it is an error.\<close>

definition array_set :: "'a list \<Rightarrow> int \<Rightarrow> ('a \<Rightarrow> 'a) \<Rightarrow> error + 'a list" where
  "array_set xs i upd =
     (if 0 \<le> i \<and> i < int (length xs) then Inr (xs[nat i := upd (xs ! nat i)])
      else Inl (OutOfBounds i (length xs)))"

text \<open>The loop of \<open>_populate_workqueues\<close>, over the indices still to visit.\<close>

fun populate_loop :: "nat list \<Rightarrow> int \<Rightarrow> WorkQueue list \<Rightarrow> error + WorkQueue list" where
  "populate_loop [] ChunkSize wqs = Inr wqs"
| "populate_loop (i # rest) ChunkSize wqs =
     (case array_set wqs (int i)
             (\<lambda>q. q\<lparr>wq_next := int i * ChunkSize,
                     wq_last := (int i + 1) * ChunkSize,
                     wq_lock := 0\<rparr>) of
        Inl e \<Rightarrow> Inl e
      | Inr wqs' \<Rightarrow> populate_loop rest ChunkSize wqs')"

definition populate_workqueues ::
  "WorkQueue list \<Rightarrow> int \<Rightarrow> int \<Rightarrow> int \<Rightarrow> error + WorkQueue list" where
  "populate_workqueues workqueues N ChunkSize nthread =
     (case populate_loop [0..<nat nthread] ChunkSize workqueues of
        Inl e \<Rightarrow> Inl e
      | Inr wqs \<Rightarrow> array_set wqs (nthread - 1) (\<lambda>q. q\<lparr>wq_last := N\<rparr>))"

definition populate_context :: "int \<Rightarrow> Context list" where
  "populate_context nthread =
     map (\<lambda>i. \<lparr>ctx_id = i, completed = 0\<rparr>) [0..<nat nthread]"

subsection \<open>The worker: program counter, locals and machine state\<close>

datatype pc =
    DrainLock | DrainCrit | DrainUnlock | DrainWork
  | StealCond | StealFor | StealLock | StealCrit | StealUnlockT | StealWork | StealUnlockF
  | Ret | Trap

text \<open>
  The locals of a worker thread: \<open>tid\<close> (line 284), the flag and the loop variable of the
  stealing loops, \<open>item\<close>, \<open>AMT\<close> and \<open>last\<close> of \<open>_do_workqueue\<close>, and the
  parameter \<open>count\<close>, the pointers, the strides and the loop counter of \<open>_do_work\<close>.
\<close>

record frame =
  pc :: pc
  tid :: nat
  steal_continue :: int
  peer :: nat
  item :: int
  AMT :: int
  last_snap :: int
  count :: int
  arg_ptrs :: "int list"
  arg_steps :: "int list"
  offset :: int

record 'v state =
  common :: ContextCommon
  workqueues :: "WorkQueue list"
  contexts :: "Context list"
  frames :: "frame list"
  mem :: "int \<Rightarrow> 'v"
  claimed :: "(nat \<times> int \<times> int) list"

text \<open>A thread started on a context has read \<open>tid = context.id\<close> and nothing else.\<close>

definition entry_frame :: "Context \<Rightarrow> frame" where
  "entry_frame ctx = \<lparr>pc = DrainLock, tid = ctx_id ctx, steal_continue = 0, peer = 0, item = 0,
     AMT = 0, last_snap = 0, count = 0, arg_ptrs = [], arg_steps = [], offset = 0\<rparr>"

definition blank_wq :: WorkQueue where
  "blank_wq = \<lparr>wq_next = 0, wq_last = 0, wq_lock = 0\<rparr>"

text \<open>
  Lines 139 to 167 of \<open>body\<close>: everything before the threads are dispatched. Every spawned
  thread starts at the head of \<open>_do_workqueue\<close>.
\<close>

definition body_setup ::
  "int \<Rightarrow> int list \<Rightarrow> int list \<Rightarrow> int list \<Rightarrow> int \<Rightarrow> (int \<Rightarrow> 'v) \<Rightarrow> error + 'v state" where
  "body_setup ThreadCount ags dms sts dt m =
     (let N = dms ! 0;
          (ChunkSize, nthread) = chunking N ThreadCount;
          cmn = \<lparr>args = ags, dimensions = dms, steps = sts, data = dt, num_thread = nthread\<rparr>
      in case populate_workqueues (replicate (nat nthread) blank_wq) N ChunkSize nthread of
           Inl e \<Rightarrow> Inl e
         | Inr wqs \<Rightarrow>
             Inr \<lparr>common = cmn, workqueues = wqs, contexts = populate_context nthread,
                  frames = map entry_frame (populate_context nthread), mem = m,
                  claimed = []\<rparr>)"

text \<open>Lines 174 to 188: the audit after the join.\<close>

definition audit :: "'v state \<Rightarrow> error + unit" where
  "audit s =
     (let total_completed = fold (\<lambda>c acc. acc + completed c) (contexts s) 0
      in if total_completed = dimensions (common s) ! 0 then Inr () else Inl Unreachable)"

subsection \<open>The lock protocol\<close>

text \<open>
  \<open>atomic_cmpxchg cur cmp new\<close> returns the value observed and the new contents of the
  word. Executions are interleavings of atomic steps, so the orderings \<open>acquire\<close> and
  \<open>release\<close> of the source have no further effect here.
\<close>

definition atomic_cmpxchg :: "int \<Rightarrow> int \<Rightarrow> int \<Rightarrow> int \<times> int" where
  "atomic_cmpxchg cur cmp new = (cur, if cur = cmp then new else cur)"

definition set_frame :: "nat \<Rightarrow> (frame \<Rightarrow> frame) \<Rightarrow> 'v state \<Rightarrow> 'v state" where
  "set_frame t upd s = s\<lparr>frames := (frames s)[t := upd (frames s ! t)]\<rparr>"

definition set_wq :: "nat \<Rightarrow> (WorkQueue \<Rightarrow> WorkQueue) \<Rightarrow> 'v state \<Rightarrow> 'v state" where
  "set_wq j upd s = s\<lparr>workqueues := (workqueues s)[j := upd (workqueues s ! j)]\<rparr>"

text \<open>
  One attempt of \<open>WorkQueue.Lock\<close> by thread \<open>t\<close> on queue \<open>j\<close>: the loop of the source
  repeats while the value observed is not 0, so a failed attempt leaves the thread where it
  is.
\<close>

definition Lock :: "nat \<Rightarrow> nat \<Rightarrow> pc \<Rightarrow> 'v state \<Rightarrow> 'v state" where
  "Lock t j after s =
     (let (res, w) = atomic_cmpxchg (wq_lock (workqueues s ! j)) 0 1
      in if res \<noteq> 0 then s
         else set_frame t (\<lambda>fr. fr\<lparr>pc := after\<rparr>) (set_wq j (\<lambda>q. q\<lparr>wq_lock := w\<rparr>) s))"

text \<open>
  \<open>WorkQueue.Unlock\<close>: when the value observed is not 1 the thread runs into
  \<open>unreachable\<close>; otherwise it continues with \<open>cont\<close>.
\<close>

definition Unlock :: "nat \<Rightarrow> nat \<Rightarrow> ('v state \<Rightarrow> 'v state) \<Rightarrow> 'v state \<Rightarrow> 'v state" where
  "Unlock t j cont s =
     (let (res, w) = atomic_cmpxchg (wq_lock (workqueues s ! j)) 1 0
      in if res \<noteq> 1 then set_frame t (\<lambda>fr. fr\<lparr>pc := Trap\<rparr>) s
         else cont (set_wq j (\<lambda>q. q\<lparr>wq_lock := w\<rparr>) s))"

subsection \<open>\<open>UFuncCoreGeneric._do_work\<close>\<close>

text \<open>Lines 467 to 473: the pointers and strides of the \<open>A\<close> inputs and of the output.\<close>

definition do_work_ptrs :: "ContextCommon \<Rightarrow> nat \<Rightarrow> int \<Rightarrow> int list" where
  "do_work_ptrs c A it = map (\<lambda>i. args c ! i + it * steps c ! i) [0..<A + 1]"

definition do_work_steps :: "ContextCommon \<Rightarrow> nat \<Rightarrow> int list" where
  "do_work_steps c A = map (\<lambda>i. steps c ! i) [0..<A + 1]"

definition do_work_enter :: "nat \<Rightarrow> nat \<Rightarrow> pc \<Rightarrow> int \<Rightarrow> 'v state \<Rightarrow> 'v state" where
  "do_work_enter A t work cnt s =
     set_frame t (\<lambda>fr. fr\<lparr>pc := work,
                          count := cnt,
                          arg_ptrs := do_work_ptrs (common s) A (item fr),
                          arg_steps := do_work_steps (common s) A,
                          offset := 0\<rparr>) s"

text \<open>
  Lines 476 to 485: one iteration of the loop over \<open>count\<close>. The inputs are loaded and
  their pointers advanced, the kernel is called, the result is stored through the last
  pointer, and that pointer is advanced.
\<close>

definition do_work_iter :: "('v list \<Rightarrow> 'v) \<Rightarrow> nat \<Rightarrow> nat \<Rightarrow> 'v state \<Rightarrow> 'v state" where
  "do_work_iter f A t s =
     (let fr = frames s ! t;
          callargs = map (\<lambda>i. mem s (arg_ptrs fr ! i)) [0..<A];
          res = f callargs;
          m' = (mem s)(arg_ptrs fr ! A := res);
          ptrs' = map (\<lambda>i. arg_ptrs fr ! i + arg_steps fr ! i) [0..<A + 1]
      in set_frame t (\<lambda>fr. fr\<lparr>arg_ptrs := ptrs', offset := offset fr + 1\<rparr>) (s\<lparr>mem := m'\<rparr>))"

text \<open>The loop \<open>for_range(count)\<close> of \<open>_do_work\<close>; \<open>exit\<close> is what follows the call.\<close>

definition do_work_loop ::
  "('v list \<Rightarrow> 'v) \<Rightarrow> nat \<Rightarrow> nat \<Rightarrow> ('v state \<Rightarrow> 'v state) \<Rightarrow> 'v state \<Rightarrow> 'v state" where
  "do_work_loop f A t exit s =
     (if offset (frames s ! t) < count (frames s ! t) then do_work_iter f A t s else exit s)"

definition add_completed :: "nat \<Rightarrow> int \<Rightarrow> 'v state \<Rightarrow> 'v state" where
  "add_completed t n s =
     s\<lparr>contexts := (contexts s)[t := (contexts s ! t)\<lparr>completed := completed (contexts s ! t) + n\<rparr>]\<rparr>"

subsection \<open>\<open>UFuncCore._do_workqueue\<close>\<close>

text \<open>
  Lines 304 to 309, executed while the thread holds the lock of its own queue. The range
  taken from the queue is appended to the history \<open>claimed\<close>, which no step reads.
\<close>

definition drain_crit :: "nat \<Rightarrow> 'v state \<Rightarrow> 'v state" where
  "drain_crit t s =
     (let j = tid (frames s ! t);
          q = workqueues s ! j;
          it = wq_next q;
          amt = min GRANULARITY (wq_last q - wq_next q);
          q' = q\<lparr>wq_next := wq_next q + amt\<rparr>;
          lst = wq_last q'
      in set_frame t (\<lambda>fr. fr\<lparr>pc := DrainUnlock, item := it, AMT := amt, last_snap := lst\<rparr>)
           (set_wq j (\<lambda>_. q') (s\<lparr>claimed := claimed s @ [(t, it, amt)]\<rparr>)))"

text \<open>Lines 311 to 319: release, then leave the loop or enter \<open>_do_work\<close>.\<close>

definition drain_unlock :: "nat \<Rightarrow> nat \<Rightarrow> 'v state \<Rightarrow> 'v state" where
  "drain_unlock A t s =
     Unlock t (tid (frames s ! t))
       (\<lambda>s'. if item (frames s' ! t) \<ge> last_snap (frames s' ! t)
             then set_frame t (\<lambda>fr. fr\<lparr>pc := StealCond, steal_continue := 1\<rparr>) s'
             else do_work_enter A t DrainWork (AMT (frames s' ! t)) s') s"

text \<open>Lines 475 to 485 and 320: the loop of \<open>_do_work\<close>, then \<open>completed += AMT\<close>.\<close>

definition drain_work :: "('v list \<Rightarrow> 'v) \<Rightarrow> nat \<Rightarrow> nat \<Rightarrow> 'v state \<Rightarrow> 'v state" where
  "drain_work f A t s =
     do_work_loop f A t
       (\<lambda>s'. set_frame t (\<lambda>fr. fr\<lparr>pc := DrainLock\<rparr>)
              (add_completed t (AMT (frames s' ! t)) s')) s"

subsection \<open>\<open>UFuncCore._do_work_stealing\<close> and its inner loop\<close>

text \<open>Lines 330 to 337: the loop condition and the head of the loop body.\<close>

definition steal_cond :: "nat \<Rightarrow> 'v state \<Rightarrow> 'v state" where
  "steal_cond t s =
     (if steal_continue (frames s ! t) \<noteq> 0
      then set_frame t (\<lambda>fr. fr\<lparr>pc := StealFor, steal_continue := 0, peer := 0\<rparr>) s
      else set_frame t (\<lambda>fr. fr\<lparr>pc := Ret\<rparr>) s)"

text \<open>Lines 343 to 349: the loop over all threads, skipping the thread itself.\<close>

definition steal_for :: "nat \<Rightarrow> 'v state \<Rightarrow> 'v state" where
  "steal_for t s =
     (let fr = frames s ! t
      in if int (peer fr) < num_thread (common s)
         then (if peer fr \<noteq> tid fr
               then set_frame t (\<lambda>fr. fr\<lparr>pc := StealLock\<rparr>) s
               else set_frame t (\<lambda>fr. fr\<lparr>peer := peer fr + 1\<rparr>) s)
         else set_frame t (\<lambda>fr. fr\<lparr>pc := StealCond\<rparr>) s)"

text \<open>Lines 357 to 362, executed while the thread holds the lock of the other queue.\<close>

definition steal_crit :: "nat \<Rightarrow> 'v state \<Rightarrow> 'v state" where
  "steal_crit t s =
     (let j = peer (frames s ! t);
          q = workqueues s ! j
      in if wq_next q \<le> wq_last q - GRANULARITY
         then (let q' = q\<lparr>wq_last := wq_last q - GRANULARITY\<rparr>
               in set_frame t (\<lambda>fr. fr\<lparr>pc := StealUnlockT, item := wq_last q'\<rparr>)
                    (set_wq j (\<lambda>_. q')
                       (s\<lparr>claimed := claimed s @ [(t, wq_last q', GRANULARITY)]\<rparr>)))
         else set_frame t (\<lambda>fr. fr\<lparr>pc := StealUnlockF\<rparr>) s)"

definition steal_unlock_then :: "nat \<Rightarrow> nat \<Rightarrow> 'v state \<Rightarrow> 'v state" where
  "steal_unlock_then A t s =
     Unlock t (peer (frames s ! t)) (do_work_enter A t StealWork GRANULARITY) s"

text \<open>Lines 368 to 372: the loop of \<open>_do_work\<close> over \<open>STEAL_AMT\<close> elements and what follows.\<close>

definition steal_work :: "('v list \<Rightarrow> 'v) \<Rightarrow> nat \<Rightarrow> nat \<Rightarrow> 'v state \<Rightarrow> 'v state" where
  "steal_work f A t s =
     do_work_loop f A t
       (\<lambda>s'. set_frame t (\<lambda>fr. fr\<lparr>pc := StealFor, steal_continue := 1, peer := peer fr + 1\<rparr>)
              (add_completed t GRANULARITY s')) s"

definition steal_unlock_else :: "nat \<Rightarrow> 'v state \<Rightarrow> 'v state" where
  "steal_unlock_else t s =
     Unlock t (peer (frames s ! t))
       (set_frame t (\<lambda>fr. fr\<lparr>pc := StealFor, peer := peer fr + 1\<rparr>)) s"

subsection \<open>Threads and schedules\<close>

text \<open>
  \<open>step_thread f A t s\<close> lets thread \<open>t\<close> take its next atomic step; \<open>f\<close> is the kernel
  and \<open>A\<close> its arity. A thread that has returned or trapped stays where it is.
\<close>

definition step_thread :: "('v list \<Rightarrow> 'v) \<Rightarrow> nat \<Rightarrow> nat \<Rightarrow> 'v state \<Rightarrow> 'v state" where
  "step_thread f A t s =
     (if t < length (frames s) then
        (case pc (frames s ! t) of
           DrainLock \<Rightarrow> Lock t (tid (frames s ! t)) DrainCrit s
         | DrainCrit \<Rightarrow> drain_crit t s
         | DrainUnlock \<Rightarrow> drain_unlock A t s
         | DrainWork \<Rightarrow> drain_work f A t s
         | StealCond \<Rightarrow> steal_cond t s
         | StealFor \<Rightarrow> steal_for t s
         | StealLock \<Rightarrow> Lock t (peer (frames s ! t)) StealCrit s
         | StealCrit \<Rightarrow> steal_crit t s
         | StealUnlockT \<Rightarrow> steal_unlock_then A t s
         | StealWork \<Rightarrow> steal_work f A t s
         | StealUnlockF \<Rightarrow> steal_unlock_else t s
         | Ret \<Rightarrow> s
         | Trap \<Rightarrow> s)
      else s)"

text \<open>A schedule is the list of the threads that step, in order.\<close>

fun run :: "('v list \<Rightarrow> 'v) \<Rightarrow> nat \<Rightarrow> nat list \<Rightarrow> 'v state \<Rightarrow> 'v state" where
  "run f A [] s = s"
| "run f A (t # sched) s = run f A sched (step_thread f A t s)"

definition all_returned :: "'v state \<Rightarrow> bool" where
  "all_returned s = (\<forall>fr \<in> set (frames s). pc fr = Ret)"

text \<open>
  The whole of \<open>body\<close> under a schedule of its threads: \<open>None\<close> when the schedule ends
  before every thread has returned (the join does not come back), otherwise the outcome of
  the audit, with the final state.
\<close>

definition body ::
  "('v list \<Rightarrow> 'v) \<Rightarrow> nat \<Rightarrow> nat list \<Rightarrow> int \<Rightarrow> int list \<Rightarrow> int list \<Rightarrow> int list \<Rightarrow> int \<Rightarrow>
     (int \<Rightarrow> 'v) \<Rightarrow> (error + 'v state) option" where
  "body f A sched ThreadCount ags dms sts dt m =
     (case body_setup ThreadCount ags dms sts dt m of
        Inl e \<Rightarrow> Some (Inl e)
      | Inr s0 \<Rightarrow>
          (let s = run f A sched s0
           in if all_returned s
              then (case audit s of Inl e \<Rightarrow> Some (Inl e) | Inr _ \<Rightarrow> Some (Inr s))
              else None))"

subsection \<open>Auxiliary notions for the statements\<close>

text \<open>The index range a queue still holds.\<close>

definition wq_range :: "WorkQueue \<Rightarrow> int set" where
  "wq_range q = {wq_next q ..< wq_last q}"

text \<open>What the loop of \<open>_populate_workqueues\<close> writes into element \<open>i\<close>.\<close>

definition fresh_wq :: "int \<Rightarrow> nat \<Rightarrow> WorkQueue" where
  "fresh_wq c i = \<lparr>wq_next = int i * c, wq_last = (int i + 1) * c, wq_lock = 0\<rparr>"

definition initial_wqs :: "int \<Rightarrow> int \<Rightarrow> nat \<Rightarrow> WorkQueue list" where
  "initial_wqs c N n =
     (map (fresh_wq c) [0..<n])[n - 1 := (fresh_wq c (n - 1))\<lparr>wq_last := N\<rparr>]"

subsection \<open>Invariants of the states the threads reach\<close>

definition batch_size :: "'v state \<Rightarrow> int" where
  "batch_size s = dimensions (common s) ! 0"

definition in_steal_check :: "pc \<Rightarrow> bool" where
  "in_steal_check p \<longleftrightarrow> p = StealLock \<or> p = StealCrit \<or> p = StealUnlockT \<or> p = StealUnlockF"

definition in_work :: "pc \<Rightarrow> bool" where
  "in_work p \<longleftrightarrow> p = DrainWork \<or> p = StealWork"

text \<open>The arrays have one element per thread, and a thread probes only other threads' queues.\<close>

definition shape :: "'v state \<Rightarrow> bool" where
  "shape s \<longleftrightarrow>
     length (workqueues s) = length (frames s) \<and>
     length (contexts s) = length (frames s) \<and>
     num_thread (common s) = int (length (frames s)) \<and>
     (\<forall>t < length (frames s).
        tid (frames s ! t) = t \<and>
        (in_steal_check (pc (frames s ! t)) \<or> pc (frames s ! t) = StealWork \<longrightarrow>
           peer (frames s ! t) < length (frames s) \<and> peer (frames s ! t) \<noteq> t) \<and>
        (pc (frames s ! t) = StealFor \<longrightarrow> peer (frames s ! t) \<le> length (frames s)))"

text \<open>A thread holds the lock of queue \<open>j\<close> between a successful \<open>Lock\<close> and its \<open>Unlock\<close>.\<close>

definition holds :: "frame \<Rightarrow> nat \<Rightarrow> bool" where
  "holds fr j \<longleftrightarrow>
     ((pc fr = DrainCrit \<or> pc fr = DrainUnlock) \<and> j = tid fr) \<or>
     ((pc fr = StealCrit \<or> pc fr = StealUnlockT \<or> pc fr = StealUnlockF) \<and> j = peer fr)"

definition holders :: "'v state \<Rightarrow> nat \<Rightarrow> int" where
  "holders s j = (\<Sum>fr\<leftarrow>frames s. of_bool (holds fr j))"

definition lock_inv :: "'v state \<Rightarrow> bool" where
  "lock_inv s \<longleftrightarrow>
     (\<forall>j < length (workqueues s).
        wq_lock (workqueues s ! j) = holders s j \<and> holders s j \<le> 1) \<and>
     (\<forall>t < length (frames s). pc (frames s ! t) \<noteq> Trap)"

definition range_inv :: "'v state \<Rightarrow> bool" where
  "range_inv s \<longleftrightarrow>
     (\<forall>j < length (workqueues s).
        0 \<le> wq_next (workqueues s ! j) \<and>
        wq_next (workqueues s ! j) \<le> wq_last (workqueues s ! j) \<and>
        wq_last (workqueues s ! j) \<le> batch_size s)"

text \<open>The address of element \<open>k\<close> of argument \<open>i\<close>; argument \<open>A\<close> is the output.\<close>

definition elem_addr :: "ContextCommon \<Rightarrow> nat \<Rightarrow> int \<Rightarrow> int" where
  "elem_addr c i k = args c ! i + k * steps c ! i"

definition frame_ok :: "ContextCommon \<Rightarrow> nat \<Rightarrow> frame \<Rightarrow> bool" where
  "frame_ok c A fr \<longleftrightarrow>
     (pc fr = DrainUnlock \<longrightarrow>
        0 \<le> AMT fr \<and> AMT fr \<le> GRANULARITY \<and> (last_snap fr \<le> item fr \<longleftrightarrow> AMT fr = 0)) \<and>
     (pc fr = DrainWork \<longrightarrow> count fr = AMT fr) \<and>
     (pc fr = StealWork \<longrightarrow> count fr = GRANULARITY) \<and>
     (in_work (pc fr) \<longrightarrow>
        0 \<le> offset fr \<and> offset fr \<le> count fr \<and>
        arg_ptrs fr = map (\<lambda>i. elem_addr c i (item fr + offset fr)) [0..<A + 1] \<and>
        arg_steps fr = map (\<lambda>i. steps c ! i) [0..<A + 1])"

definition frame_inv :: "nat \<Rightarrow> 'v state \<Rightarrow> bool" where
  "frame_inv A s \<longleftrightarrow> (\<forall>t < length (frames s). frame_ok (common s) A (frames s ! t))"

text \<open>A thread that has seen its own queue empty has left \<open>_do_workqueue\<close> for good.\<close>

definition left_drain :: "frame \<Rightarrow> bool" where
  "left_drain fr \<longleftrightarrow>
     (pc fr = DrainUnlock \<and> AMT fr = 0) \<or> pc fr = StealCond \<or> pc fr = StealFor \<or>
     in_steal_check (pc fr) \<or> pc fr = StealWork \<or> pc fr = Ret"

definition drained_inv :: "'v state \<Rightarrow> bool" where
  "drained_inv s \<longleftrightarrow>
     (\<forall>t < length (frames s). left_drain (frames s ! t) \<longrightarrow>
        wq_next (workqueues s ! t) = wq_last (workqueues s ! t))"

text \<open>The indices a thread has taken from a queue and not yet passed to the kernel.\<close>

definition pending :: "frame \<Rightarrow> int set" where
  "pending fr =
     (if pc fr = DrainUnlock then {item fr ..< item fr + AMT fr}
      else if pc fr = StealUnlockT then {item fr ..< item fr + GRANULARITY}
      else if in_work (pc fr) then {item fr + offset fr ..< item fr + count fr}
      else {})"

definition inflight :: "frame \<Rightarrow> int" where
  "inflight fr =
     (if pc fr = DrainUnlock \<or> pc fr = DrainWork then AMT fr
      else if pc fr = StealUnlockT \<or> pc fr = StealWork then GRANULARITY
      else 0)"

definition qcount :: "'v state \<Rightarrow> int \<Rightarrow> int" where
  "qcount s k = (\<Sum>q\<leftarrow>workqueues s. of_bool (k \<in> wq_range q))"

definition pcount :: "'v state \<Rightarrow> int \<Rightarrow> int" where
  "pcount s k = (\<Sum>fr\<leftarrow>frames s. of_bool (k \<in> pending fr))"

definition covers :: "int \<Rightarrow> nat \<times> int \<times> int \<Rightarrow> bool" where
  "covers k c = (case c of (t, i, a) \<Rightarrow> i \<le> k \<and> k < i + a)"

definition lcount :: "'v state \<Rightarrow> int \<Rightarrow> int" where
  "lcount s k = int (length (filter (covers k) (claimed s)))"

text \<open>Every index of the batch is in exactly one queue or in exactly one range of the history.\<close>

definition part_inv :: "'v state \<Rightarrow> bool" where
  "part_inv s \<longleftrightarrow> (\<forall>k. qcount s k + lcount s k = of_bool (0 \<le> k \<and> k < batch_size s))"

definition acct_inv :: "'v state \<Rightarrow> bool" where
  "acct_inv s \<longleftrightarrow>
     (\<Sum>c\<leftarrow>contexts s. completed c) + (\<Sum>fr\<leftarrow>frames s. inflight fr) +
     (\<Sum>q\<leftarrow>workqueues s. wq_last q - wq_next q) = batch_size s"

text \<open>No index is held twice, by queues and by threads together, and none outside the batch.\<close>

definition todo_inv :: "'v state \<Rightarrow> bool" where
  "todo_inv s \<longleftrightarrow> (\<forall>k. qcount s k + pcount s k \<le> of_bool (0 \<le> k \<and> k < batch_size s))"

definition engine_inv :: "nat \<Rightarrow> 'v state \<Rightarrow> bool" where
  "engine_inv A s \<longleftrightarrow>
     shape s \<and> lock_inv s \<and> range_inv s \<and> frame_inv A s \<and> drained_inv s \<and> part_inv s \<and>
     acct_inv s \<and> todo_inv s"

text \<open>
  A batch is valid for a kernel of arity \<open>A\<close> when there are \<open>A + 1\<close> pointers and strides,
  the output slots of different indices are different, and no output slot is an input slot.
\<close>

definition valid_batch :: "ContextCommon \<Rightarrow> nat \<Rightarrow> bool" where
  "valid_batch c A \<longleftrightarrow>
     length (args c) = A + 1 \<and> length (steps c) = A + 1 \<and>
     (\<forall>k k'. 0 \<le> k \<and> k < dimensions c ! 0 \<and> 0 \<le> k' \<and> k' < dimensions c ! 0 \<longrightarrow>
        (k \<noteq> k' \<longrightarrow> elem_addr c A k \<noteq> elem_addr c A k') \<and>
        (\<forall>i < A. elem_addr c i k \<noteq> elem_addr c A k'))"

text \<open>The values the sequential reference loads at index \<open>k\<close>.\<close>

definition loaded :: "ContextCommon \<Rightarrow> nat \<Rightarrow> (int \<Rightarrow> 'v) \<Rightarrow> int \<Rightarrow> 'v list" where
  "loaded c A m k = map (\<lambda>i. m (elem_addr c i k)) [0..<A]"


subsection \<open>The effect of one step, in a normal form\<close>

text \<open>
  Every step of thread \<open>t\<close> rewrites the thread's own frame and context, at most one
  queue \<open>j\<close>, the memory, and extends the history.
\<close>

definition upd ::
  "nat \<Rightarrow> frame \<Rightarrow> nat \<Rightarrow> WorkQueue \<Rightarrow> Context \<Rightarrow> (int \<Rightarrow> 'v) \<Rightarrow> (nat \<times> int \<times> int) list \<Rightarrow>
     'v state \<Rightarrow> 'v state" where
  "upd t fr j q c m l s =
     s\<lparr>frames := (frames s)[t := fr], workqueues := (workqueues s)[j := q],
       contexts := (contexts s)[t := c], mem := m, claimed := claimed s @ l\<rparr>"

text \<open>What a step has to satisfy locally for \<open>engine_inv\<close> to be kept.\<close>

definition local_ok ::
  "nat \<Rightarrow> 'v state \<Rightarrow> nat \<Rightarrow> frame \<Rightarrow> nat \<Rightarrow> WorkQueue \<Rightarrow> Context \<Rightarrow> (nat \<times> int \<times> int) list \<Rightarrow> bool" where
  "local_ok A s t fr' j q' c' l \<longleftrightarrow>
     tid fr' = t \<and>
     (in_steal_check (pc fr') \<or> pc fr' = StealWork \<longrightarrow>
        peer fr' < length (frames s) \<and> peer fr' \<noteq> t) \<and>
     (pc fr' = StealFor \<longrightarrow> peer fr' \<le> length (frames s)) \<and>
     pc fr' \<noteq> Trap \<and>
     (\<forall>j'. j' \<noteq> j \<longrightarrow> holds fr' j' = holds (frames s ! t) j') \<and>
     wq_lock q' + of_bool (holds (frames s ! t) j) =
       wq_lock (workqueues s ! j) + of_bool (holds fr' j) \<and>
     wq_lock q' \<le> 1 \<and>
     0 \<le> wq_next q' \<and> wq_next q' \<le> wq_last q' \<and> wq_last q' \<le> batch_size s \<and>
     frame_ok (common s) A fr' \<and>
     (wq_next (workqueues s ! j) = wq_last (workqueues s ! j) \<longrightarrow> wq_next q' = wq_last q') \<and>
     (left_drain fr' \<longrightarrow> left_drain (frames s ! t) \<or> (j = t \<and> wq_next q' = wq_last q')) \<and>
     (\<forall>k. of_bool (k \<in> wq_range q') + int (length (filter (covers k) l)) =
          (of_bool (k \<in> wq_range (workqueues s ! j)) :: int)) \<and>
     (\<forall>k. of_bool (k \<in> wq_range q') + of_bool (k \<in> pending fr') \<le>
          (of_bool (k \<in> wq_range (workqueues s ! j)) +
           of_bool (k \<in> pending (frames s ! t)) :: int)) \<and>
     completed c' + inflight fr' + (wq_last q' - wq_next q') =
       completed (contexts s ! t) + inflight (frames s ! t) +
       (wq_last (workqueues s ! j) - wq_next (workqueues s ! j))"

text \<open>
  What a step does to the memory: the output slot of an index that leaves the thread's
  pending range receives the kernel's value on the inputs now in memory, and no other slot of
  the batch changes.
\<close>

definition mem_ok ::
  "('v list \<Rightarrow> 'v) \<Rightarrow> nat \<Rightarrow> 'v state \<Rightarrow> nat \<Rightarrow> frame \<Rightarrow> nat \<Rightarrow> WorkQueue \<Rightarrow> (int \<Rightarrow> 'v) \<Rightarrow> bool" where
  "mem_ok f A s t fr' j q' m' \<longleftrightarrow>
     (\<forall>k i. 0 \<le> k \<and> k < batch_size s \<and> i < A \<longrightarrow>
        m' (elem_addr (common s) i k) = mem s (elem_addr (common s) i k)) \<and>
     (\<forall>k. 0 \<le> k \<and> k < batch_size s \<longrightarrow>
        m' (elem_addr (common s) A k) =
          (if of_bool (k \<in> wq_range q') + of_bool (k \<in> pending fr') <
              (of_bool (k \<in> wq_range (workqueues s ! j)) +
               of_bool (k \<in> pending (frames s ! t)) :: int)
           then f (loaded (common s) A (mem s) k)
           else mem s (elem_addr (common s) A k)))"

text \<open>
  What a step leaves alone: the thread acts on its own queue or, inside a steal-check, on the
  peer's; on its own queue it never moves \<open>last\<close> and moves \<open>next\<close> only by the pop of
  the critical section, on a peer's it never moves \<open>next\<close> and moves \<open>last\<close> only by a
  steal of \<open>GRANULARITY\<close> elements; outside the critical sections and lock operations no
  queue changes; the context keeps its \<open>id\<close>.
\<close>

definition in_drain_check :: "pc \<Rightarrow> bool" where
  "in_drain_check p \<longleftrightarrow> p = DrainLock \<or> p = DrainCrit \<or> p = DrainUnlock"

definition local_frame ::
  "'v state \<Rightarrow> nat \<Rightarrow> frame \<Rightarrow> nat \<Rightarrow> WorkQueue \<Rightarrow> Context \<Rightarrow> bool" where
  "local_frame s t fr' j q' c' \<longleftrightarrow>
     wq_next (workqueues s ! j) \<le> wq_next q' \<and> wq_last q' \<le> wq_last (workqueues s ! j) \<and>
     ctx_id c' = ctx_id (contexts s ! t) \<and>
     completed (contexts s ! t) \<le> completed c' \<and>
     (in_drain_check (pc (frames s ! t)) \<longrightarrow> j = t \<and> wq_last q' = wq_last (workqueues s ! j)) \<and>
     (in_steal_check (pc (frames s ! t)) \<longrightarrow>
        j = peer (frames s ! t) \<and> j \<noteq> t \<and> wq_next q' = wq_next (workqueues s ! j) \<and>
        (wq_last q' = wq_last (workqueues s ! j) \<or>
         pc (frames s ! t) = StealCrit \<and>
         wq_next (workqueues s ! j) \<le> wq_last (workqueues s ! j) - GRANULARITY \<and>
         wq_last q' = wq_last (workqueues s ! j) - GRANULARITY)) \<and>
     (\<not> in_drain_check (pc (frames s ! t)) \<and> \<not> in_steal_check (pc (frames s ! t)) \<longrightarrow>
        j = t \<and> q' = workqueues s ! j) \<and>
     (pc (frames s ! t) = DrainCrit \<longrightarrow>
        wq_next q' = wq_next (workqueues s ! j) +
          min GRANULARITY (wq_last (workqueues s ! j) - wq_next (workqueues s ! j))) \<and>
     (pc (frames s ! t) \<noteq> DrainCrit \<and> pc (frames s ! t) \<noteq> StealCrit \<longrightarrow>
        wq_next q' = wq_next (workqueues s ! j) \<and> wq_last q' = wq_last (workqueues s ! j)) \<and>
     (pc (frames s ! t) \<noteq> DrainLock \<and> pc (frames s ! t) \<noteq> StealLock \<and>
      pc (frames s ! t) \<noteq> DrainUnlock \<and> pc (frames s ! t) \<noteq> StealUnlockT \<and>
      pc (frames s ! t) \<noteq> StealUnlockF \<longrightarrow> wq_lock q' = wq_lock (workqueues s ! j))"

subsection \<open>A measure of the work left\<close>

text \<open>
  The number of steps a thread with \<open>n\<close> threads around it can still take without a new
  claim: what is left of the current loops, and one more pass over the peers when the flag
  \<open>steal_continue\<close> is set.
\<close>

definition rank_cond :: "int \<Rightarrow> int \<Rightarrow> int" where
  "rank_cond n sc = (if sc \<noteq> 0 then 4 * n + 3 else 1)"

definition rank_for :: "int \<Rightarrow> int \<Rightarrow> int \<Rightarrow> int" where
  "rank_for n i sc = 4 * (n - i) + 1 + rank_cond n sc"

definition rank :: "int \<Rightarrow> frame \<Rightarrow> int" where
  "rank n fr =
     (case pc fr of
        DrainLock \<Rightarrow> 4 * n + 6
      | DrainCrit \<Rightarrow> 4 * n + 5
      | DrainUnlock \<Rightarrow>
          (if last_snap fr \<le> item fr then 4 * n + 4 else AMT fr + 2 + (4 * n + 6))
      | DrainWork \<Rightarrow> (count fr - offset fr) + 1 + (4 * n + 6)
      | StealCond \<Rightarrow> rank_cond n (steal_continue fr)
      | StealFor \<Rightarrow> rank_for n (int (peer fr)) (steal_continue fr)
      | StealLock \<Rightarrow> rank_for n (int (peer fr)) (steal_continue fr) - 1
      | StealCrit \<Rightarrow> rank_for n (int (peer fr)) (steal_continue fr) - 2
      | StealUnlockF \<Rightarrow> rank_for n (int (peer fr)) (steal_continue fr) - 3
      | StealUnlockT \<Rightarrow> GRANULARITY + 2 + rank_for n (int (peer fr) + 1) 1
      | StealWork \<Rightarrow> (count fr - offset fr) + 1 + rank_for n (int (peer fr) + 1) 1
      | Ret \<Rightarrow> 0
      | Trap \<Rightarrow> 0)"

definition mu :: "'v state \<Rightarrow> int" where
  "mu s =
     (\<Sum>q\<leftarrow>workqueues s. (int (length (frames s)) + 5) * (wq_last q - wq_next q)) +
     (\<Sum>fr\<leftarrow>frames s. rank (int (length (frames s))) fr)"

definition local_dec :: "'v state \<Rightarrow> nat \<Rightarrow> frame \<Rightarrow> nat \<Rightarrow> WorkQueue \<Rightarrow> bool" where
  "local_dec s t fr' j q' \<longleftrightarrow>
     (int (length (frames s)) + 5) * (wq_last q' - wq_next q') +
       rank (int (length (frames s))) fr' <
     (int (length (frames s)) + 5) * (wq_last (workqueues s ! j) - wq_next (workqueues s ! j)) +
       rank (int (length (frames s))) (frames s ! t)"

text \<open>
  Thread \<open>t\<close> can move: it has not returned, and it is not spinning on a lock that another
  thread holds.
\<close>

definition enabled :: "'v state \<Rightarrow> nat \<Rightarrow> bool" where
  "enabled s t \<longleftrightarrow>
     t < length (frames s) \<and> pc (frames s ! t) \<noteq> Ret \<and> pc (frames s ! t) \<noteq> Trap \<and>
     (pc (frames s ! t) = DrainLock \<longrightarrow> wq_lock (workqueues s ! tid (frames s ! t)) = 0) \<and>
     (pc (frames s ! t) = StealLock \<longrightarrow> wq_lock (workqueues s ! peer (frames s ! t)) = 0)"

text \<open>The state in which the threads are dispatched.\<close>

definition initial_state ::
  "int list \<Rightarrow> int list \<Rightarrow> int list \<Rightarrow> int \<Rightarrow> (int \<Rightarrow> 'v) \<Rightarrow> int \<Rightarrow> int \<Rightarrow> 'v state" where
  "initial_state ags dms sts dt m c n =
     \<lparr>common = \<lparr>args = ags, dimensions = dms, steps = sts, data = dt, num_thread = n\<rparr>,
      workqueues = initial_wqs c (dms ! 0) (nat n), contexts = populate_context n,
      frames = map entry_frame (populate_context n), mem = m, claimed = []\<rparr>"

text \<open>The queue whose lock a thread in a lock operation or critical section works on.\<close>

definition lock_target :: "frame \<Rightarrow> nat" where
  "lock_target fr = (if in_drain_check (pc fr) then tid fr else peer fr)"

text \<open>
  The accounting of a batch with fewer elements than threads, per thread: the element of the
  thread's own queue is in the queue, taken by the thread, or counted in its \<open>completed\<close>.
\<close>

definition one_each :: "'v state \<Rightarrow> bool" where
  "one_each s \<longleftrightarrow>
     (\<forall>t < length (frames s).
        0 \<le> completed (contexts s ! t) \<and>
        completed (contexts s ! t) + inflight (frames s ! t) +
          (wq_last (workqueues s ! t) - wq_next (workqueues s ! t)) = 1)"

text \<open>Everything the case analysis of a step establishes about its effect.\<close>

definition step_spec ::
  "('v list \<Rightarrow> 'v) \<Rightarrow> nat \<Rightarrow> 'v state \<Rightarrow> nat \<Rightarrow> frame \<Rightarrow> nat \<Rightarrow> WorkQueue \<Rightarrow> Context \<Rightarrow>
     (int \<Rightarrow> 'v) \<Rightarrow> (nat \<times> int \<times> int) list \<Rightarrow> bool" where
  "step_spec f A s t fr' j q' c' m' l \<longleftrightarrow>
     j < length (frames s) \<and>
     step_thread f A t s = upd t fr' j q' c' m' l s \<and>
     local_ok A s t fr' j q' c' l \<and>
     local_frame s t fr' j q' c' \<and>
     local_dec s t fr' j q' \<and>
     (valid_batch (common s) A \<longrightarrow> mem_ok f A s t fr' j q' m')"

subsection \<open>Schedules: moves and fairness\<close>


text \<open>A schedule in rounds is fair for \<open>n\<close> threads when every round runs every thread.\<close>

definition fair_rounds :: "nat \<Rightarrow> nat list list \<Rightarrow> bool" where
  "fair_rounds n rounds \<longleftrightarrow> (\<forall>r \<in> set rounds. \<forall>t < n. t \<in> set r)"

subsection \<open>A concrete kernel and memory for the examples\<close>

definition incr :: "int list \<Rightarrow> int" where
  "incr xs = hd xs + 1"

definition mem0 :: "int \<Rightarrow> int" where
  "mem0 a = 10 * a"

section \<open>The dispatcher's set-up\<close>

lemma sdiv_nonneg_pos: "0 \<le> (N::int) \<Longrightarrow> 0 < T \<Longrightarrow> N sdiv T = N div T"
  by (simp add: signed_divide_int_def sgn_if)

lemma cast_int_id: "0 \<le> x \<Longrightarrow> x < 2 ^ 31 \<Longrightarrow> cast_int x = x"
  unfolding cast_int_def by (rule signed_take_bit_int_eq_self) auto

lemma chunking_cases:
  assumes "1 \<le> N" "1 \<le> T" "T < 2 ^ 31"
  shows "chunking N T = (if N div T = 0 then (1, N) else (N div T, T))"
proof -
  have s: "N sdiv T = N div T" using assms by (simp add: sdiv_nonneg_pos)
  show ?thesis
  proof (cases "N div T = 0")
    case True
    then have "N < T" using assms by (simp add: zdiv_eq_0_iff)
    then have "cast_int N = N" using assms by (intro cast_int_id) auto
    then show ?thesis using True s by (simp add: chunking_def)
  next
    case False
    then show ?thesis using s by (simp add: chunking_def)
  qed
qed

lemma chunking_bounds:
  assumes "1 \<le> N" "1 \<le> T" "T < 2 ^ 31" "chunking N T = (c, n)"
  shows "1 \<le> c" "1 \<le> n" "n * c \<le> N" "n \<le> T"
proof -
  have e: "(c, n) = (if N div T = 0 then (1, N) else (N div T, T))"
    using chunking_cases [OF assms(1-3)] assms(4) by simp
  have "0 \<le> N div T" using assms by (simp add: pos_imp_zdiv_nonneg_iff)
  moreover have "T * (N div T) \<le> N"
    using mult_div_mod_eq [of T N] pos_mod_sign [of T N] assms by linarith
  moreover have "N div T = 0 \<Longrightarrow> N < T" using assms by (simp add: zdiv_eq_0_iff)
  ultimately show "1 \<le> c" "1 \<le> n" "n * c \<le> N" "n \<le> T"
    using e assms by (auto split: if_splits)
qed

lemma populate_loop_append:
  "populate_loop (xs @ ys) c w =
     (case populate_loop xs c w of Inl e \<Rightarrow> Inl e | Inr w' \<Rightarrow> populate_loop ys c w')"
  by (induction xs arbitrary: w) (auto split: sum.splits)

lemma populate_loop_upt:
  "n \<le> length w \<Longrightarrow> populate_loop [0..<n] c w = Inr (map (fresh_wq c) [0..<n] @ drop n w)"
proof (induction n)
  case 0
  then show ?case by simp
next
  case (Suc n)
  then have n: "n < length w" by simp
  have dr: "drop n w = w ! n # drop (Suc n) w"
    using n by (simp add: Cons_nth_drop_Suc)
  have "populate_loop [0..<Suc n] c w =
          populate_loop [n] c (map (fresh_wq c) [0..<n] @ drop n w)"
    using Suc by (simp add: populate_loop_append)
  also have "\<dots> = Inr (map (fresh_wq c) [0..<n] @ (fresh_wq c n # drop (Suc n) w))"
    using n by (simp add: array_set_def dr list_update_append fresh_wq_def)
  finally show ?case by simp
qed

lemma populate_workqueues_eq:
  assumes "1 \<le> n"
  shows "populate_workqueues (replicate (nat n) blank_wq) N c n = Inr (initial_wqs c N (nat n))"
proof -
  have "populate_loop [0..<nat n] c (replicate (nat n) blank_wq) =
          Inr (map (fresh_wq c) [0..<nat n])"
    using populate_loop_upt [of "nat n" "replicate (nat n) blank_wq" c] by simp
  moreover have "nat (n - 1) = nat n - 1" by simp
  ultimately show ?thesis
    using assms by (simp add: populate_workqueues_def array_set_def initial_wqs_def)
qed

lemma length_initial_wqs [simp]: "length (initial_wqs c N n) = n"
  by (simp add: initial_wqs_def)

lemma initial_wqs_nth:
  "i < n \<Longrightarrow> initial_wqs c N n ! i =
     \<lparr>wq_next = int i * c, wq_last = (if i = n - 1 then N else (int i + 1) * c), wq_lock = 0\<rparr>"
  by (cases "i = n - 1") (simp_all add: initial_wqs_def nth_list_update fresh_wq_def)

lemma initial_wqs_bounds:
  assumes c: "1 \<le> c" and n: "1 \<le> n" and le: "int n * c \<le> N" and i: "i < n"
  shows "0 \<le> wq_next (initial_wqs c N n ! i)"
    and "wq_next (initial_wqs c N n ! i) < wq_last (initial_wqs c N n ! i)"
    and "wq_last (initial_wqs c N n ! i) \<le> N"
    and "i < j \<Longrightarrow> j < n \<Longrightarrow> wq_last (initial_wqs c N n ! i) \<le> wq_next (initial_wqs c N n ! j)"
proof -
  have m: "(int i + 1) * c \<le> int n * c"
    using i c by (intro mult_right_mono) auto
  show "0 \<le> wq_next (initial_wqs c N n ! i)"
    using i c by (simp add: initial_wqs_nth)
  show "wq_next (initial_wqs c N n ! i) < wq_last (initial_wqs c N n ! i)"
    using i c m le by (auto simp: initial_wqs_nth algebra_simps)
  show "wq_last (initial_wqs c N n ! i) \<le> N"
    using i m le by (simp add: initial_wqs_nth)
  show "wq_last (initial_wqs c N n ! i) \<le> wq_next (initial_wqs c N n ! j)" if "i < j" "j < n"
  proof -
    have "(int i + 1) * c \<le> int j * c"
      using that c by (intro mult_right_mono) auto
    moreover have "i \<noteq> n - 1" using that by simp
    ultimately show ?thesis using that i by (simp add: initial_wqs_nth)
  qed
qed

lemma initial_wqs_cover:
  assumes c: "1 \<le> c" and n: "1 \<le> n" and le: "int n * c \<le> N" and k: "0 \<le> k" "k < N"
  shows "\<exists>i<n. wq_next (initial_wqs c N n ! i) \<le> k \<and> k < wq_last (initial_wqs c N n ! i)"
proof (cases "k < (int n - 1) * c")
  case True
  define i where "i = nat (k div c)"
  have kc: "0 \<le> k div c" using k c by (simp add: pos_imp_zdiv_nonneg_iff)
  have lo': "c * (k div c) \<le> k"
    using mult_div_mod_eq [of c k] pos_mod_sign [of c k] c by linarith
  have hi': "k < c * (k div c) + c"
    using mult_div_mod_eq [of c k] pos_mod_bound [of c k] c by linarith
  have lo: "(k div c) * c \<le> k" using lo' by (simp add: mult.commute)
  have hi: "k < (k div c + 1) * c" using hi' by (simp add: algebra_simps)
  have "k div c < int n - 1"
  proof (rule ccontr)
    assume "\<not> k div c < int n - 1"
    then have "(int n - 1) * c \<le> (k div c) * c"
      using c by (intro mult_right_mono) auto
    then show False using lo True by linarith
  qed
  then have i: "i < n - 1" "int i = k div c" using kc by (auto simp: i_def)
  then have "i < n" by simp
  moreover have "wq_next (initial_wqs c N n ! i) \<le> k \<and> k < wq_last (initial_wqs c N n ! i)"
    using i lo hi by (simp add: initial_wqs_nth)
  ultimately show ?thesis by blast
next
  case False
  have "n - 1 < n" using n by simp
  moreover have "wq_next (initial_wqs c N n ! (n - 1)) \<le> k \<and>
                 k < wq_last (initial_wqs c N n ! (n - 1))"
    using False k n by (simp add: initial_wqs_nth of_nat_diff)
  ultimately show ?thesis by blast
qed

lemma body_setup_eq:
  assumes "1 \<le> N" "1 \<le> T" "T < 2 ^ 31" "dms ! 0 = N" "chunking N T = (c, n)"
  shows "body_setup T ags dms sts dt m =
           Inr \<lparr>common = \<lparr>args = ags, dimensions = dms, steps = sts, data = dt, num_thread = n\<rparr>,
                workqueues = initial_wqs c N (nat n), contexts = populate_context n,
                frames = map entry_frame (populate_context n), mem = m, claimed = []\<rparr>"
proof -
  have "1 \<le> n" using chunking_bounds(2) [OF assms(1-3,5)] .
  then show ?thesis
    using assms(4,5) by (simp add: body_setup_def populate_workqueues_eq)
qed

text \<open>
  Claim C5. For a batch of \<open>N \<ge> 1\<close> elements and \<open>T \<ge> 1\<close> configured threads, the
  set-up succeeds with \<open>chunk = N div T\<close> and \<open>T\<close> threads, or with \<open>chunk = 1\<close> and
  \<open>N\<close> threads when the quotient is 0; queue \<open>i\<close> starts at \<open>i * chunk\<close>, ends at
  \<open>(i + 1) * chunk\<close> (the last queue at \<open>N\<close>) and is unlocked; the queues' ranges are
  non-empty, pairwise disjoint, and together they are \<open>[0, N)\<close>.
\<close>

theorem dispatcher_initial_queues:
  assumes "1 \<le> N" and "1 \<le> T" and "T < 2 ^ 31" and "dms ! 0 = N"
  shows "\<exists>(s::'a state) c n. body_setup T ags dms sts dt m = Inr s
           \<and> (c, n) = (if N div T = 0 then (1, N) else (N div T, T))
           \<and> num_thread (common s) = n
           \<and> length (workqueues s) = nat n
           \<and> (\<forall>i < nat n. wq_next (workqueues s ! i) = int i * c
                 \<and> wq_last (workqueues s ! i) = (if int i = n - 1 then N else (int i + 1) * c)
                 \<and> wq_lock (workqueues s ! i) = 0)
           \<and> (\<forall>i < nat n. wq_range (workqueues s ! i) \<noteq> {})
           \<and> (\<forall>i < nat n. \<forall>j < nat n. i \<noteq> j \<longrightarrow>
                 wq_range (workqueues s ! i) \<inter> wq_range (workqueues s ! j) = {})
           \<and> (\<Union>i < nat n. wq_range (workqueues s ! i)) = {0 ..< N}"
proof -
  obtain c n where cn: "chunking N T = (c, n)" by (cases "chunking N T")
  note b = chunking_bounds [OF assms(1-3) cn]
  define W where "W = initial_wqs c N (nat n)"
  have le: "int (nat n) * c \<le> N" and n1: "1 \<le> nat n" using b by auto
  note B = initial_wqs_bounds [OF b(1) n1 le, folded W_def]
  have su: "body_setup T ags dms sts dt m =
      Inr \<lparr>common = \<lparr>args = ags, dimensions = dms, steps = sts, data = dt, num_thread = n\<rparr>,
           workqueues = W, contexts = populate_context n,
           frames = map entry_frame (populate_context n), mem = m, claimed = []\<rparr>"
    unfolding W_def by (rule body_setup_eq [OF assms cn])
  have vals: "\<forall>i < nat n. wq_next (W ! i) = int i * c
                 \<and> wq_last (W ! i) = (if int i = n - 1 then N else (int i + 1) * c)
                 \<and> wq_lock (W ! i) = 0"
  proof (intro allI impI)
    fix i assume i: "i < nat n"
    have "(i = nat n - 1) = (int i = n - 1)" using i by auto
    then show "wq_next (W ! i) = int i * c
                 \<and> wq_last (W ! i) = (if int i = n - 1 then N else (int i + 1) * c)
                 \<and> wq_lock (W ! i) = 0"
      using i by (simp add: W_def initial_wqs_nth)
  qed
  have nonempty: "\<forall>i < nat n. wq_range (W ! i) \<noteq> {}"
    using B(2) by (simp add: wq_range_def)
  have disj: "\<forall>i < nat n. \<forall>j < nat n. i \<noteq> j \<longrightarrow> wq_range (W ! i) \<inter> wq_range (W ! j) = {}"
  proof (intro allI impI)
    fix i j assume ij: "i < nat n" "j < nat n" "i \<noteq> j"
    consider "i < j" | "j < i" using ij by linarith
    then show "wq_range (W ! i) \<inter> wq_range (W ! j) = {}"
    proof cases
      case 1
      then have "wq_last (W ! i) \<le> wq_next (W ! j)" using B(4) ij by blast
      then show ?thesis by (auto simp: wq_range_def)
    next
      case 2
      then have "wq_last (W ! j) \<le> wq_next (W ! i)" using B(4) ij by blast
      then show ?thesis by (auto simp: wq_range_def)
    qed
  qed
  have cover: "(\<Union>i < nat n. wq_range (W ! i)) = {0 ..< N}"
  proof (intro set_eqI iffI)
    fix k assume "k \<in> (\<Union>i < nat n. wq_range (W ! i))"
    then obtain i where "i < nat n" "wq_next (W ! i) \<le> k" "k < wq_last (W ! i)"
      by (auto simp: wq_range_def)
    then show "k \<in> {0 ..< N}" using B(1) [of i] B(3) [of i] by simp
  next
    fix k assume "k \<in> {0 ..< N}"
    then have "0 \<le> k" "k < N" by auto
    from initial_wqs_cover [OF b(1) n1 le this]
    show "k \<in> (\<Union>i < nat n. wq_range (W ! i))"
      by (auto simp: wq_range_def W_def)
  qed
  define S :: "'a state" where "S = \<lparr>common = \<lparr>args = ags, dimensions = dms, steps = sts, data = dt, num_thread = n\<rparr>,
           workqueues = W, contexts = populate_context n,
           frames = map entry_frame (populate_context n), mem = m, claimed = []\<rparr>"
  have ws: "workqueues S = W" "num_thread (common S) = n" by (simp_all add: S_def)
  show ?thesis
  proof (intro exI conjI)
    show "body_setup T ags dms sts dt m = Inr S" using su by (simp add: S_def)
    show "(c, n) = (if N div T = 0 then (1, N) else (N div T, T))"
      using chunking_cases [OF assms(1-3)] cn by simp
    show "num_thread (common S) = n" by (rule ws)
    show "length (workqueues S) = nat n" unfolding ws by (simp add: W_def)
    show "\<forall>i < nat n. wq_next (workqueues S ! i) = int i * c
                 \<and> wq_last (workqueues S ! i) = (if int i = n - 1 then N else (int i + 1) * c)
                 \<and> wq_lock (workqueues S ! i) = 0"
      unfolding ws by (rule vals)
    show "\<forall>i < nat n. wq_range (workqueues S ! i) \<noteq> {}"
      unfolding ws by (rule nonempty)
    show "\<forall>i < nat n. \<forall>j < nat n. i \<noteq> j \<longrightarrow>
                 wq_range (workqueues S ! i) \<inter> wq_range (workqueues S ! j) = {}"
      unfolding ws by (rule disj)
    show "(\<Union>i < nat n. wq_range (workqueues S ! i)) = {0 ..< N}"
      unfolding ws by (rule cover)
  qed
qed

theorem dispatcher_initial_queues_witness:
  "\<exists>(s::int state) c n. body_setup 2 [0, 100] [3] [1, 1] 0 (\<lambda>a. 0) = Inr s
           \<and> (c, n) = (if (3::int) div 2 = 0 then (1, 3) else (3 div 2, 2))
           \<and> num_thread (common s) = n
           \<and> length (workqueues s) = nat n
           \<and> (\<forall>i < nat n. wq_next (workqueues s ! i) = int i * c
                 \<and> wq_last (workqueues s ! i) = (if int i = n - 1 then 3 else (int i + 1) * c)
                 \<and> wq_lock (workqueues s ! i) = 0)
           \<and> (\<forall>i < nat n. wq_range (workqueues s ! i) \<noteq> {})
           \<and> (\<forall>i < nat n. \<forall>j < nat n. i \<noteq> j \<longrightarrow>
                 wq_range (workqueues s ! i) \<inter> wq_range (workqueues s ! j) = {})
           \<and> (\<Union>i < nat n. wq_range (workqueues s ! i)) = {0 ..< 3}"
  by (rule dispatcher_initial_queues) simp_all

text \<open>
  Claim C7. For an empty batch the quotient \<open>0 div 4\<close> is 0, so the number of threads
  becomes \<open>N = 0\<close> and both arrays have no element; the write to
  \<open>workqueues[num_thread - 1].last\<close> after the loop then goes to index \<open>-1\<close>, outside
  the array.
\<close>

theorem dispatcher_empty_batch_out_of_bounds:
  "body f A sched 4 [0, 100] [0] [4, 4] 0 m = Some (Inl (OutOfBounds (- 1) 0))"
  by (simp add: body_def body_setup_def chunking_def cast_int_def populate_workqueues_def
      array_set_def)

lemma sum_list_map_update:
  fixes F :: "'a \<Rightarrow> int"
  shows "t < length xs \<Longrightarrow> sum_list (map F (xs[t := x])) = sum_list (map F xs) + F x - F (xs ! t)"
  by (induction xs arbitrary: t) (auto split: nat.splits)

lemma nth_upd:
  "i < length xs \<Longrightarrow> xs[j := x] ! i = (if i = j then x else xs ! i)"
  by (cases "i = j") simp_all

lemma upd_sel [simp]:
  "frames (upd t fr j q c m l s) = (frames s)[t := fr]"
  "workqueues (upd t fr j q c m l s) = (workqueues s)[j := q]"
  "contexts (upd t fr j q c m l s) = (contexts s)[t := c]"
  "mem (upd t fr j q c m l s) = m"
  "claimed (upd t fr j q c m l s) = claimed s @ l"
  "common (upd t fr j q c m l s) = common s"
  "batch_size (upd t fr j q c m l s) = batch_size s"
  by (simp_all add: upd_def batch_size_def)

lemma shape_upd:
  assumes "shape s" "t < length (frames s)" "local_ok A s t fr' j q' c' l"
  shows "shape (upd t fr' j q' c' m' l s)"
  using assms unfolding shape_def local_ok_def
  by (simp add: nth_upd)

lemma holders_upd:
  assumes "t < length (frames s)"
  shows "holders (upd t fr' j q' c' m' l s) j' =
           holders s j' + of_bool (holds fr' j') - of_bool (holds (frames s ! t) j')"
  using assms by (simp add: holders_def sum_list_map_update)

lemma lock_inv_upd:
  assumes "shape s" "lock_inv s" "t < length (frames s)" "j < length (frames s)"
    "local_ok A s t fr' j q' c' l"
  shows "lock_inv (upd t fr' j q' c' m' l s)"
proof -
  have len: "length (workqueues s) = length (frames s)" using assms(1) by (simp add: shape_def)
  have h5: "\<And>j'. j' \<noteq> j \<Longrightarrow> holds fr' j' = holds (frames s ! t) j'"
    and h6: "wq_lock q' + of_bool (holds (frames s ! t) j) =
       wq_lock (workqueues s ! j) + of_bool (holds fr' j)"
    and h7: "wq_lock q' \<le> 1" and h4: "pc fr' \<noteq> Trap"
    using assms(5) by (simp_all add: local_ok_def)
  have L: "\<And>j'. j' < length (frames s) \<Longrightarrow>
      wq_lock (workqueues s ! j') = holders s j' \<and> holders s j' \<le> 1"
    and NT: "\<And>t'. t' < length (frames s) \<Longrightarrow> pc (frames s ! t') \<noteq> Trap"
    using assms(2) len by (simp_all add: lock_inv_def)
  show ?thesis
    unfolding lock_inv_def
  proof (intro conjI allI impI)
    fix j' assume "j' < length (workqueues (upd t fr' j q' c' m' l s))"
    then have j': "j' < length (frames s)" using len by simp
    show "wq_lock (workqueues (upd t fr' j q' c' m' l s) ! j') = holders (upd t fr' j q' c' m' l s) j'"
    proof (cases "j' = j")
      case True
      then show ?thesis using L [OF j'] h6 assms(3,4) len
        by (simp add: holders_upd)
    next
      case False
      then show ?thesis using L [OF j'] h5 [OF False] assms(3)
        by (simp add: holders_upd)
    qed
    show "holders (upd t fr' j q' c' m' l s) j' \<le> 1"
    proof (cases "j' = j")
      case True
      then show ?thesis using L [OF j'] h6 h7 assms(3,4) len
        by (simp add: holders_upd)
    next
      case False
      then show ?thesis using L [OF j'] h5 [OF False] assms(3)
        by (simp add: holders_upd)
    qed
  next
    fix t' assume "t' < length (frames (upd t fr' j q' c' m' l s))"
    then show "pc (frames (upd t fr' j q' c' m' l s) ! t') \<noteq> Trap"
      using NT [of t'] h4 by (simp add: nth_upd)
  qed
qed

lemma range_inv_upd:
  assumes "range_inv s" "local_ok A s t fr' j q' c' l"
  shows "range_inv (upd t fr' j q' c' m' l s)"
  using assms unfolding range_inv_def local_ok_def
  by (simp add: nth_upd)

lemma frame_inv_upd:
  assumes "frame_inv A s" "local_ok A s t fr' j q' c' l"
  shows "frame_inv A (upd t fr' j q' c' m' l s)"
  using assms unfolding frame_inv_def local_ok_def
  by (simp add: nth_upd)

lemma drained_inv_upd:
  assumes "shape s" "drained_inv s" "t < length (frames s)" "j < length (frames s)"
    "local_ok A s t fr' j q' c' l"
  shows "drained_inv (upd t fr' j q' c' m' l s)"
proof -
  have len: "length (workqueues s) = length (frames s)" using assms(1) by (simp add: shape_def)
  have h10: "wq_next (workqueues s ! j) = wq_last (workqueues s ! j) \<Longrightarrow> wq_next q' = wq_last q'"
    and h11: "left_drain fr' \<Longrightarrow> left_drain (frames s ! t) \<or> (j = t \<and> wq_next q' = wq_last q')"
    using assms(5) by (simp_all add: local_ok_def)
  have D: "\<And>t'. t' < length (frames s) \<Longrightarrow> left_drain (frames s ! t') \<Longrightarrow>
      wq_next (workqueues s ! t') = wq_last (workqueues s ! t')"
    using assms(2) by (simp add: drained_inv_def)
  show ?thesis
    unfolding drained_inv_def
  proof (intro allI impI)
    fix t' assume t': "t' < length (frames (upd t fr' j q' c' m' l s))"
      and ld: "left_drain (frames (upd t fr' j q' c' m' l s) ! t')"
    have t'': "t' < length (frames s)" using t' by simp
    show "wq_next (workqueues (upd t fr' j q' c' m' l s) ! t') =
          wq_last (workqueues (upd t fr' j q' c' m' l s) ! t')"
    proof (cases "t' = t")
      case True
      then have "left_drain fr'" using ld assms(3) by simp
      from h11 [OF this] show ?thesis
      proof
        assume "left_drain (frames s ! t)"
        then have "wq_next (workqueues s ! t) = wq_last (workqueues s ! t)"
          using D assms(3) by blast
        then show ?thesis using True h10 assms(3,4) len by (auto simp: nth_upd)
      next
        assume "j = t \<and> wq_next q' = wq_last q'"
        then show ?thesis using True assms(3) len by simp
      qed
    next
      case False
      then have "left_drain (frames s ! t')" using ld by simp
      then have "wq_next (workqueues s ! t') = wq_last (workqueues s ! t')"
        using D t'' by blast
      then show ?thesis using h10 t'' len by (auto simp: nth_upd)
    qed
  qed
qed

lemma qcount_upd:
  assumes "j < length (workqueues s)"
  shows "qcount (upd t fr' j q' c' m' l s) k =
           qcount s k + of_bool (k \<in> wq_range q') - of_bool (k \<in> wq_range (workqueues s ! j))"
  using assms by (simp add: qcount_def sum_list_map_update)

lemma pcount_upd:
  assumes "t < length (frames s)"
  shows "pcount (upd t fr' j q' c' m' l s) k =
           pcount s k + of_bool (k \<in> pending fr') - of_bool (k \<in> pending (frames s ! t))"
  using assms by (simp add: pcount_def sum_list_map_update)

lemma lcount_upd:
  "lcount (upd t fr' j q' c' m' l s) k = lcount s k + int (length (filter (covers k) l))"
  by (simp add: lcount_def)

lemma part_inv_upd:
  assumes "shape s" "part_inv s" "j < length (frames s)" "local_ok A s t fr' j q' c' l"
  shows "part_inv (upd t fr' j q' c' m' l s)"
proof -
  have len: "j < length (workqueues s)" using assms(1,3) by (simp add: shape_def)
  have h: "\<And>k. of_bool (k \<in> wq_range q') + int (length (filter (covers k) l)) =
          (of_bool (k \<in> wq_range (workqueues s ! j)) :: int)"
    using assms(4) by (simp add: local_ok_def)
  show ?thesis
    unfolding part_inv_def
  proof
    fix k
    have "qcount s k + lcount s k = of_bool (0 \<le> k \<and> k < batch_size s)"
      using assms(2) by (simp add: part_inv_def)
    then show "qcount (upd t fr' j q' c' m' l s) k + lcount (upd t fr' j q' c' m' l s) k =
        of_bool (0 \<le> k \<and> k < batch_size (upd t fr' j q' c' m' l s))"
      using h [of k] by (simp add: qcount_upd [OF len] lcount_upd)
  qed
qed

lemma acct_inv_upd:
  assumes "shape s" "acct_inv s" "t < length (frames s)" "j < length (frames s)"
    "local_ok A s t fr' j q' c' l"
  shows "acct_inv (upd t fr' j q' c' m' l s)"
proof -
  have len: "length (workqueues s) = length (frames s)" "length (contexts s) = length (frames s)"
    using assms(1) by (simp_all add: shape_def)
  have h: "completed c' + inflight fr' + (wq_last q' - wq_next q') =
       completed (contexts s ! t) + inflight (frames s ! t) +
       (wq_last (workqueues s ! j) - wq_next (workqueues s ! j))"
    using assms(5) by (simp add: local_ok_def)
  show ?thesis
    using assms(2,3,4) len h unfolding acct_inv_def
    by (simp add: sum_list_map_update)
qed

lemma todo_inv_upd:
  assumes "shape s" "todo_inv s" "t < length (frames s)" "j < length (frames s)"
    "local_ok A s t fr' j q' c' l"
  shows "todo_inv (upd t fr' j q' c' m' l s)"
proof -
  have len: "j < length (workqueues s)" using assms(1,4) by (simp add: shape_def)
  have h: "\<And>k. of_bool (k \<in> wq_range q') + of_bool (k \<in> pending fr') \<le>
          (of_bool (k \<in> wq_range (workqueues s ! j)) +
           of_bool (k \<in> pending (frames s ! t)) :: int)"
    using assms(5) by (simp add: local_ok_def)
  show ?thesis
    unfolding todo_inv_def
  proof
    fix k
    have "qcount s k + pcount s k \<le> of_bool (0 \<le> k \<and> k < batch_size s)"
      using assms(2) by (simp add: todo_inv_def)
    then show "qcount (upd t fr' j q' c' m' l s) k + pcount (upd t fr' j q' c' m' l s) k \<le>
        of_bool (0 \<le> k \<and> k < batch_size (upd t fr' j q' c' m' l s))"
      using h [of k] by (simp add: qcount_upd [OF len] pcount_upd [OF assms(3)])
  qed
qed

lemma engine_inv_upd:
  assumes "engine_inv A s" "t < length (frames s)" "j < length (frames s)"
    "local_ok A s t fr' j q' c' l"
  shows "engine_inv A (upd t fr' j q' c' m' l s)"
  using assms unfolding engine_inv_def
  by (auto intro: shape_upd lock_inv_upd range_inv_upd frame_inv_upd drained_inv_upd
      part_inv_upd acct_inv_upd todo_inv_upd)



lemma mu_upd:
  assumes "shape s" "t < length (frames s)" "j < length (frames s)" "local_dec s t fr' j q'"
  shows "mu (upd t fr' j q' c' m' l s) < mu s"
proof -
  have len: "j < length (workqueues s)" using assms(1,3) by (simp add: shape_def)
  show ?thesis
    using assms(4) unfolding mu_def local_dec_def
    by (simp add: sum_list_map_update [OF len] sum_list_map_update [OF assms(2)])
qed

lemma step_DrainLock:
  assumes "t < length (frames s)" "pc (frames s ! t) = DrainLock"
  shows "step_thread f A t s =
    (if wq_lock (workqueues s ! tid (frames s ! t)) \<noteq> 0 then s
     else upd t ((frames s ! t)\<lparr>pc := DrainCrit\<rparr>) (tid (frames s ! t))
            ((workqueues s ! tid (frames s ! t))\<lparr>wq_lock := 1\<rparr>) (contexts s ! t) (mem s) [] s)"
  using assms by (simp add: step_thread_def upd_def Lock_def atomic_cmpxchg_def set_frame_def set_wq_def)

lemma step_DrainCrit:
  assumes "t < length (frames s)" "pc (frames s ! t) = DrainCrit"
  shows "step_thread f A t s =
    upd t ((frames s ! t)\<lparr>pc := DrainUnlock,
              item := wq_next (workqueues s ! tid (frames s ! t)),
              AMT := min GRANULARITY (wq_last (workqueues s ! tid (frames s ! t))
                       - wq_next (workqueues s ! tid (frames s ! t))),
              last_snap := wq_last (workqueues s ! tid (frames s ! t))\<rparr>)
        (tid (frames s ! t))
        ((workqueues s ! tid (frames s ! t))\<lparr>wq_next :=
            wq_next (workqueues s ! tid (frames s ! t))
            + min GRANULARITY (wq_last (workqueues s ! tid (frames s ! t))
                       - wq_next (workqueues s ! tid (frames s ! t)))\<rparr>)
        (contexts s ! t) (mem s)
        [(t, wq_next (workqueues s ! tid (frames s ! t)),
          min GRANULARITY (wq_last (workqueues s ! tid (frames s ! t))
                       - wq_next (workqueues s ! tid (frames s ! t))))] s"
  using assms by (simp add: step_thread_def upd_def drain_crit_def set_frame_def set_wq_def Let_def)

lemma step_DrainUnlock:
  assumes "t < length (frames s)" "pc (frames s ! t) = DrainUnlock"
    "wq_lock (workqueues s ! tid (frames s ! t)) = 1"
  shows "step_thread f A t s =
    upd t (if last_snap (frames s ! t) \<le> item (frames s ! t)
           then (frames s ! t)\<lparr>pc := StealCond, steal_continue := 1\<rparr>
           else (frames s ! t)\<lparr>pc := DrainWork, count := AMT (frames s ! t),
                   arg_ptrs := do_work_ptrs (common s) A (item (frames s ! t)),
                   arg_steps := do_work_steps (common s) A, offset := 0\<rparr>)
        (tid (frames s ! t)) ((workqueues s ! tid (frames s ! t))\<lparr>wq_lock := 0\<rparr>)
        (contexts s ! t) (mem s) [] s"
  using assms by (simp add: step_thread_def upd_def drain_unlock_def Unlock_def atomic_cmpxchg_def
      do_work_enter_def set_frame_def set_wq_def Let_def)

lemma step_DrainWork:
  assumes "t < length (frames s)" "pc (frames s ! t) = DrainWork"
  shows "step_thread f A t s =
    (if offset (frames s ! t) < count (frames s ! t)
     then upd t ((frames s ! t)\<lparr>arg_ptrs := map (\<lambda>i. arg_ptrs (frames s ! t) ! i
                                            + arg_steps (frames s ! t) ! i) [0..<A + 1],
                   offset := offset (frames s ! t) + 1\<rparr>)
            (tid (frames s ! t)) (workqueues s ! tid (frames s ! t)) (contexts s ! t)
            ((mem s)(arg_ptrs (frames s ! t) ! A :=
                f (map (\<lambda>i. mem s (arg_ptrs (frames s ! t) ! i)) [0..<A]))) [] s
     else upd t ((frames s ! t)\<lparr>pc := DrainLock\<rparr>)
            (tid (frames s ! t)) (workqueues s ! tid (frames s ! t))
            ((contexts s ! t)\<lparr>completed := completed (contexts s ! t) + AMT (frames s ! t)\<rparr>)
            (mem s) [] s)"
  using assms by (simp add: step_thread_def upd_def drain_work_def do_work_loop_def
      do_work_iter_def add_completed_def set_frame_def Let_def)

lemma step_StealCond:
  assumes "t < length (frames s)" "pc (frames s ! t) = StealCond"
  shows "step_thread f A t s =
    upd t (if steal_continue (frames s ! t) \<noteq> 0
           then (frames s ! t)\<lparr>pc := StealFor, steal_continue := 0, peer := 0\<rparr>
           else (frames s ! t)\<lparr>pc := Ret\<rparr>)
        (tid (frames s ! t)) (workqueues s ! tid (frames s ! t)) (contexts s ! t) (mem s) [] s"
  using assms by (simp add: step_thread_def upd_def steal_cond_def set_frame_def)

lemma step_StealFor:
  assumes "t < length (frames s)" "pc (frames s ! t) = StealFor"
  shows "step_thread f A t s =
    upd t (if int (peer (frames s ! t)) < num_thread (common s)
           then (if peer (frames s ! t) \<noteq> tid (frames s ! t)
                 then (frames s ! t)\<lparr>pc := StealLock\<rparr>
                 else (frames s ! t)\<lparr>peer := peer (frames s ! t) + 1\<rparr>)
           else (frames s ! t)\<lparr>pc := StealCond\<rparr>)
        (tid (frames s ! t)) (workqueues s ! tid (frames s ! t)) (contexts s ! t) (mem s) [] s"
  using assms by (simp add: step_thread_def upd_def steal_for_def set_frame_def Let_def)

lemma step_StealLock:
  assumes "t < length (frames s)" "pc (frames s ! t) = StealLock"
  shows "step_thread f A t s =
    (if wq_lock (workqueues s ! peer (frames s ! t)) \<noteq> 0 then s
     else upd t ((frames s ! t)\<lparr>pc := StealCrit\<rparr>) (peer (frames s ! t))
            ((workqueues s ! peer (frames s ! t))\<lparr>wq_lock := 1\<rparr>) (contexts s ! t) (mem s) [] s)"
  using assms by (simp add: step_thread_def upd_def Lock_def atomic_cmpxchg_def set_frame_def set_wq_def)

lemma step_StealCrit:
  assumes "t < length (frames s)" "pc (frames s ! t) = StealCrit"
  shows "step_thread f A t s =
    (if wq_next (workqueues s ! peer (frames s ! t))
          \<le> wq_last (workqueues s ! peer (frames s ! t)) - GRANULARITY
     then upd t ((frames s ! t)\<lparr>pc := StealUnlockT,
                   item := wq_last (workqueues s ! peer (frames s ! t)) - GRANULARITY\<rparr>)
            (peer (frames s ! t))
            ((workqueues s ! peer (frames s ! t))\<lparr>wq_last :=
                wq_last (workqueues s ! peer (frames s ! t)) - GRANULARITY\<rparr>)
            (contexts s ! t) (mem s)
            [(t, wq_last (workqueues s ! peer (frames s ! t)) - GRANULARITY, GRANULARITY)] s
     else upd t ((frames s ! t)\<lparr>pc := StealUnlockF\<rparr>) (peer (frames s ! t))
            (workqueues s ! peer (frames s ! t)) (contexts s ! t) (mem s) [] s)"
  using assms by (simp add: step_thread_def upd_def steal_crit_def set_frame_def set_wq_def Let_def)

lemma step_StealUnlockT:
  assumes "t < length (frames s)" "pc (frames s ! t) = StealUnlockT"
    "wq_lock (workqueues s ! peer (frames s ! t)) = 1"
  shows "step_thread f A t s =
    upd t ((frames s ! t)\<lparr>pc := StealWork, count := GRANULARITY,
              arg_ptrs := do_work_ptrs (common s) A (item (frames s ! t)),
              arg_steps := do_work_steps (common s) A, offset := 0\<rparr>)
        (peer (frames s ! t)) ((workqueues s ! peer (frames s ! t))\<lparr>wq_lock := 0\<rparr>)
        (contexts s ! t) (mem s) [] s"
  using assms by (simp add: step_thread_def upd_def steal_unlock_then_def Unlock_def
      atomic_cmpxchg_def do_work_enter_def set_frame_def set_wq_def Let_def)

lemma step_StealWork:
  assumes "t < length (frames s)" "pc (frames s ! t) = StealWork"
  shows "step_thread f A t s =
    (if offset (frames s ! t) < count (frames s ! t)
     then upd t ((frames s ! t)\<lparr>arg_ptrs := map (\<lambda>i. arg_ptrs (frames s ! t) ! i
                                            + arg_steps (frames s ! t) ! i) [0..<A + 1],
                   offset := offset (frames s ! t) + 1\<rparr>)
            (tid (frames s ! t)) (workqueues s ! tid (frames s ! t)) (contexts s ! t)
            ((mem s)(arg_ptrs (frames s ! t) ! A :=
                f (map (\<lambda>i. mem s (arg_ptrs (frames s ! t) ! i)) [0..<A]))) [] s
     else upd t ((frames s ! t)\<lparr>pc := StealFor, steal_continue := 1,
                   peer := peer (frames s ! t) + 1\<rparr>)
            (tid (frames s ! t)) (workqueues s ! tid (frames s ! t))
            ((contexts s ! t)\<lparr>completed := completed (contexts s ! t) + GRANULARITY\<rparr>)
            (mem s) [] s)"
  using assms by (simp add: step_thread_def upd_def steal_work_def do_work_loop_def
      do_work_iter_def add_completed_def set_frame_def Let_def)

lemma step_StealUnlockF:
  assumes "t < length (frames s)" "pc (frames s ! t) = StealUnlockF"
    "wq_lock (workqueues s ! peer (frames s ! t)) = 1"
  shows "step_thread f A t s =
    upd t ((frames s ! t)\<lparr>pc := StealFor, peer := peer (frames s ! t) + 1\<rparr>)
        (peer (frames s ! t)) ((workqueues s ! peer (frames s ! t))\<lparr>wq_lock := 0\<rparr>)
        (contexts s ! t) (mem s) [] s"
  using assms by (simp add: step_thread_def upd_def steal_unlock_else_def Unlock_def
      atomic_cmpxchg_def set_frame_def set_wq_def Let_def)

lemma step_idle:
  assumes "\<not> t < length (frames s) \<or> pc (frames s ! t) = Ret \<or> pc (frames s ! t) = Trap"
  shows "step_thread f A t s = s"
  using assms by (auto simp: step_thread_def)

section \<open>The case analysis of a step\<close>

lemma sum_list_of_bool_ge:
  "t < length xs \<Longrightarrow> P (xs ! t) \<Longrightarrow> (1::int) \<le> (\<Sum>x\<leftarrow>xs. of_bool (P x))"
proof (induction xs arbitrary: t)
  case Nil
  then show ?case by simp
next
  case (Cons a xs)
  have nn: "(0::int) \<le> (\<Sum>x\<leftarrow>xs. of_bool (P x))"
    by (rule sum_list_nonneg) auto
  show ?case
  proof (cases t)
    case 0
    then show ?thesis using Cons.prems nn by simp
  next
    case (Suc n)
    then have "(1::int) \<le> (\<Sum>x\<leftarrow>xs. of_bool (P x))" using Cons by simp
    then show ?thesis by simp
  qed
qed

lemma holder_lock:
  assumes "shape s" "lock_inv s" "t < length (frames s)" "j < length (frames s)"
    "holds (frames s ! t) j"
  shows "wq_lock (workqueues s ! j) = 1"
proof -
  have "1 \<le> holders s j"
    unfolding holders_def using assms(3,5) by (rule sum_list_of_bool_ge)
  moreover have "wq_lock (workqueues s ! j) = holders s j \<and> holders s j \<le> 1"
    using assms(1,2,4) by (simp add: lock_inv_def shape_def)
  ultimately show ?thesis by simp
qed

lemma lock_le_1:
  assumes "shape s" "lock_inv s" "j < length (frames s)"
  shows "wq_lock (workqueues s ! j) \<le> 1"
  using assms by (simp add: lock_inv_def shape_def)

lemma pending_in_batch:
  assumes "todo_inv s" "t < length (frames s)" "k \<in> pending (frames s ! t)"
  shows "0 \<le> k \<and> k < batch_size s"
proof -
  have "1 \<le> pcount s k"
    unfolding pcount_def using assms(2,3) by (rule sum_list_of_bool_ge)
  moreover have "0 \<le> qcount s k"
    unfolding qcount_def by (rule sum_list_nonneg) auto
  moreover have "qcount s k + pcount s k \<le> of_bool (0 \<le> k \<and> k < batch_size s)"
    using assms(1) by (simp add: todo_inv_def)
  ultimately have "(1::int) \<le> of_bool (0 \<le> k \<and> k < batch_size s)" by linarith
  then show ?thesis by (simp add: of_bool_def split: if_splits)
qed

lemmas local_defs = local_ok_def holds_def frame_ok_def left_drain_def in_steal_check_def
  in_work_def inflight_def wq_range_def covers_def pending_def GRANULARITY_def

lemmas frame_defs = local_frame_def in_steal_check_def in_drain_check_def GRANULARITY_def

lemmas rank_defs = local_dec_def rank_def rank_for_def rank_cond_def GRANULARITY_def

lemmas memok_defs = mem_ok_def pending_def wq_range_def in_work_def GRANULARITY_def

lemma elem_addr_Suc: "elem_addr c i (k + 1) = elem_addr c i k + steps c ! i"
  by (simp add: elem_addr_def algebra_simps)

lemma advance_ptrs:
  assumes "ptrs = map (\<lambda>i. elem_addr c i k) [0..<n]" "stps = map (\<lambda>i. steps c ! i) [0..<n]"
  shows "map (\<lambda>i. ptrs ! i + stps ! i) [0..<n] = map (\<lambda>i. elem_addr c i (k + 1)) [0..<n]"
  using assms by (simp add: elem_addr_Suc)

lemma claim_pays:
  assumes "1 \<le> (a::int)" "1 \<le> n"
  shows "a + 3 < (n + 5) * a"
proof -
  have "0 \<le> n * a" using assms by simp
  moreover have "(n + 5) * a = n * a + 5 * a" by (simp add: algebra_simps)
  ultimately show ?thesis using assms by linarith
qed

text \<open>One iteration of the loop of \<open>_do_work\<close> at index \<open>k0\<close>, on a valid batch.\<close>

lemma work_iter_mem_ok:
  assumes vb: "valid_batch (common s) A"
    and k0: "0 \<le> k0" "k0 < batch_size s"
    and ptrs: "ptrs = map (\<lambda>i. elem_addr (common s) i k0) [0..<A + 1]"
    and pend: "\<And>k. (of_bool (k \<in> wq_range q') + of_bool (k \<in> pending fr') <
              (of_bool (k \<in> wq_range (workqueues s ! j)) +
               of_bool (k \<in> pending (frames s ! t)) :: int)) = (k = k0)"
  shows "mem_ok f A s t fr' j q' ((mem s)(ptrs ! A := f (map (\<lambda>i. mem s (ptrs ! i)) [0..<A])))"
proof -
  have pA: "ptrs ! A = elem_addr (common s) A k0"
    unfolding ptrs by (simp add: nth_append)
  have ld: "map (\<lambda>i. mem s (ptrs ! i)) [0..<A] = loaded (common s) A (mem s) k0"
    unfolding ptrs loaded_def by (simp add: nth_append)
  have inj: "\<And>k. 0 \<le> k \<Longrightarrow> k < batch_size s \<Longrightarrow> k \<noteq> k0 \<Longrightarrow>
      elem_addr (common s) A k \<noteq> elem_addr (common s) A k0"
    and sep: "\<And>k i. 0 \<le> k \<Longrightarrow> k < batch_size s \<Longrightarrow> i < A \<Longrightarrow>
      elem_addr (common s) i k \<noteq> elem_addr (common s) A k0"
    using vb k0 unfolding valid_batch_def batch_size_def by blast+
  show ?thesis
    unfolding mem_ok_def pA ld
  proof (intro conjI allI impI)
    fix k i assume "0 \<le> k \<and> k < batch_size s \<and> i < A"
    then show "((mem s)(elem_addr (common s) A k0 := f (loaded (common s) A (mem s) k0)))
        (elem_addr (common s) i k) = mem s (elem_addr (common s) i k)"
      using sep by simp
  next
    fix k assume a: "0 \<le> k \<and> k < batch_size s"
    show "((mem s)(elem_addr (common s) A k0 := f (loaded (common s) A (mem s) k0)))
        (elem_addr (common s) A k) =
        (if of_bool (k \<in> wq_range q') + of_bool (k \<in> pending fr') <
              (of_bool (k \<in> wq_range (workqueues s ! j)) +
               of_bool (k \<in> pending (frames s ! t)) :: int)
         then f (loaded (common s) A (mem s) k)
         else mem s (elem_addr (common s) A k))"
      unfolding pend using inj a by (cases "k = k0") simp_all
  qed
qed

lemma step_spec_DrainLock:
  assumes inv: "engine_inv A s" and t: "t < length (frames s)"
    and p: "pc (frames s ! t) = DrainLock"
    and free: "wq_lock (workqueues s ! tid (frames s ! t)) = 0"
  shows "\<exists>fr' j q' c' m' l. step_spec f A s t fr' j q' c' m' l"
proof -
  have sh: "shape s" and li: "lock_inv s" and ri: "range_inv s" and fi: "frame_inv A s"
    and di: "drained_inv s" and ti: "todo_inv s" using inv by (simp_all add: engine_inv_def)
  have tid: "tid (frames s ! t) = t" and len: "length (workqueues s) = length (frames s)"
    and nt: "num_thread (common s) = int (length (frames s))"
    using sh t by (simp_all add: shape_def)
  have n1: "1 \<le> int (length (frames s))" using t by simp
  have r: "\<And>j. j < length (frames s) \<Longrightarrow> 0 \<le> wq_next (workqueues s ! j) \<and>
      wq_next (workqueues s ! j) \<le> wq_last (workqueues s ! j) \<and>
      wq_last (workqueues s ! j) \<le> batch_size s"
    using ri len by (simp add: range_inv_def)
  have l1: "\<And>j. j < length (frames s) \<Longrightarrow> wq_lock (workqueues s ! j) \<le> 1"
    using lock_le_1 [OF sh li] .
  have fo: "frame_ok (common s) A (frames s ! t)" using fi t by (simp add: frame_inv_def)
  have lk: "wq_lock (workqueues s ! t) = 0" using free tid by simp
  have "step_spec f A s t ((frames s ! t)\<lparr>pc := DrainCrit\<rparr>)
        (t) ((workqueues s ! t)\<lparr>wq_lock := 1\<rparr>)
        (contexts s ! t) (mem s)
        []"
    unfolding step_spec_def
  proof (intro conjI impI)
    show "t < length (frames s)" by (rule t)
    show "step_thread f A t s = upd t ((frames s ! t)\<lparr>pc := DrainCrit\<rparr>)
        (t) ((workqueues s ! t)\<lparr>wq_lock := 1\<rparr>)
        (contexts s ! t) (mem s)
        [] s"
      using lk by (simp add: step_DrainLock [OF t p] tid)
    show "local_ok A s t ((frames s ! t)\<lparr>pc := DrainCrit\<rparr>)
        (t) ((workqueues s ! t)\<lparr>wq_lock := 1\<rparr>)
        (contexts s ! t)
        []"
      using p tid lk r [OF t] by (simp add: local_defs)
    show "local_frame s t ((frames s ! t)\<lparr>pc := DrainCrit\<rparr>)
        (t) ((workqueues s ! t)\<lparr>wq_lock := 1\<rparr>)
        (contexts s ! t)"
      using p tid by (simp add: frame_defs)
    show "local_dec s t ((frames s ! t)\<lparr>pc := DrainCrit\<rparr>)
        (t) ((workqueues s ! t)\<lparr>wq_lock := 1\<rparr>)"
      using p by (simp add: rank_defs)
    show "mem_ok f A s t ((frames s ! t)\<lparr>pc := DrainCrit\<rparr>)
        (t) ((workqueues s ! t)\<lparr>wq_lock := 1\<rparr>)
        (mem s)" if vb: "valid_batch (common s) A"
      using p by (auto simp: memok_defs)
  qed
  then show ?thesis by blast
qed

lemma step_spec_DrainCrit:
  assumes inv: "engine_inv A s" and t: "t < length (frames s)"
    and p: "pc (frames s ! t) = DrainCrit"
  shows "\<exists>fr' j q' c' m' l. step_spec f A s t fr' j q' c' m' l"
proof -
  have sh: "shape s" and li: "lock_inv s" and ri: "range_inv s" and fi: "frame_inv A s"
    and di: "drained_inv s" and ti: "todo_inv s" using inv by (simp_all add: engine_inv_def)
  have tid: "tid (frames s ! t) = t" and len: "length (workqueues s) = length (frames s)"
    and nt: "num_thread (common s) = int (length (frames s))"
    using sh t by (simp_all add: shape_def)
  have n1: "1 \<le> int (length (frames s))" using t by simp
  have r: "\<And>j. j < length (frames s) \<Longrightarrow> 0 \<le> wq_next (workqueues s ! j) \<and>
      wq_next (workqueues s ! j) \<le> wq_last (workqueues s ! j) \<and>
      wq_last (workqueues s ! j) \<le> batch_size s"
    using ri len by (simp add: range_inv_def)
  have l1: "\<And>j. j < length (frames s) \<Longrightarrow> wq_lock (workqueues s ! j) \<le> 1"
    using lock_le_1 [OF sh li] .
  have fo: "frame_ok (common s) A (frames s ! t)" using fi t by (simp add: frame_inv_def)
  define q where "q = workqueues s ! t"
  define amt where "amt = min GRANULARITY (wq_last q - wq_next q)"
  have rq: "0 \<le> wq_next q" "wq_next q \<le> wq_last q" "wq_last q \<le> batch_size s"
    using r [OF t] by (simp_all add: q_def)
  have a: "0 \<le> amt" "amt \<le> 256" "amt \<le> wq_last q - wq_next q"
    "amt = 0 \<longleftrightarrow> wq_last q = wq_next q"
    using rq by (auto simp: amt_def GRANULARITY_def)
  have "step_spec f A s t ((frames s ! t)\<lparr>pc := DrainUnlock, item := wq_next q, AMT := amt, last_snap := wq_last q\<rparr>)
        (t) (q\<lparr>wq_next := wq_next q + amt\<rparr>)
        (contexts s ! t) (mem s)
        [(t, wq_next q, amt)]"
    unfolding step_spec_def
  proof (intro conjI impI)
    show "t < length (frames s)" by (rule t)
    show "step_thread f A t s = upd t ((frames s ! t)\<lparr>pc := DrainUnlock, item := wq_next q, AMT := amt, last_snap := wq_last q\<rparr>)
        (t) (q\<lparr>wq_next := wq_next q + amt\<rparr>)
        (contexts s ! t) (mem s)
        [(t, wq_next q, amt)] s"
      by (simp add: step_DrainCrit [OF t p] tid q_def amt_def)
    show "local_ok A s t ((frames s ! t)\<lparr>pc := DrainUnlock, item := wq_next q, AMT := amt, last_snap := wq_last q\<rparr>)
        (t) (q\<lparr>wq_next := wq_next q + amt\<rparr>)
        (contexts s ! t)
        [(t, wq_next q, amt)]"
      unfolding local_ok_def
    proof (intro conjI allI impI)
      fix k
      show "of_bool (k \<in> wq_range (q\<lparr>wq_next := wq_next q + amt\<rparr>)) +
            int (length (filter (covers k) [(t, wq_next q, amt)])) =
            (of_bool (k \<in> wq_range (workqueues s ! t)) :: int)"
        using a rq by (auto simp: wq_range_def covers_def q_def [symmetric])
    next
      fix k
      show "of_bool (k \<in> wq_range (q\<lparr>wq_next := wq_next q + amt\<rparr>)) +
            of_bool (k \<in> pending ((frames s ! t)\<lparr>pc := DrainUnlock, item := wq_next q, AMT := amt, last_snap := wq_last q\<rparr>)) \<le>
            (of_bool (k \<in> wq_range (workqueues s ! t)) +
             of_bool (k \<in> pending (frames s ! t)) :: int)"
        using a rq p by (auto simp: wq_range_def pending_def in_work_def q_def [symmetric])
    qed (use p tid a rq l1 [OF t] in \<open>auto simp: holds_def frame_ok_def left_drain_def
          in_steal_check_def in_work_def inflight_def GRANULARITY_def q_def [symmetric]\<close>)
    show "local_frame s t ((frames s ! t)\<lparr>pc := DrainUnlock, item := wq_next q, AMT := amt, last_snap := wq_last q\<rparr>)
        (t) (q\<lparr>wq_next := wq_next q + amt\<rparr>)
        (contexts s ! t)"
      using p tid a amt_def by (simp add: frame_defs q_def [symmetric])
    show "local_dec s t ((frames s ! t)\<lparr>pc := DrainUnlock, item := wq_next q, AMT := amt, last_snap := wq_last q\<rparr>)
        (t) (q\<lparr>wq_next := wq_next q + amt\<rparr>)"
      proof (cases "amt = 0")
      case True
      then show ?thesis using p a rq n1
        by (simp add: rank_defs q_def [symmetric])
    next
      case False
      then have a1: "1 \<le> amt" "wq_next q < wq_last q" using a by auto
      have "(int (length (frames s)) + 5) * (wq_last q - (wq_next q + amt)) =
            (int (length (frames s)) + 5) * (wq_last q - wq_next q) -
            (int (length (frames s)) + 5) * amt"
        by (simp add: algebra_simps)
      moreover note claim_pays [OF a1(1) n1]
      ultimately show ?thesis using p a1
        by (simp add: rank_defs q_def [symmetric])
    qed
    show "mem_ok f A s t ((frames s ! t)\<lparr>pc := DrainUnlock, item := wq_next q, AMT := amt, last_snap := wq_last q\<rparr>)
        (t) (q\<lparr>wq_next := wq_next q + amt\<rparr>)
        (mem s)" if vb: "valid_batch (common s) A"
      using p a rq unfolding mem_ok_def
      by (auto simp: pending_def wq_range_def in_work_def q_def [symmetric])
  qed
  then show ?thesis by blast
qed

lemma step_spec_DrainUnlock:
  assumes inv: "engine_inv A s" and t: "t < length (frames s)"
    and p: "pc (frames s ! t) = DrainUnlock"
  shows "\<exists>fr' j q' c' m' l. step_spec f A s t fr' j q' c' m' l"
proof -
  have sh: "shape s" and li: "lock_inv s" and ri: "range_inv s" and fi: "frame_inv A s"
    and di: "drained_inv s" and ti: "todo_inv s" using inv by (simp_all add: engine_inv_def)
  have tid: "tid (frames s ! t) = t" and len: "length (workqueues s) = length (frames s)"
    and nt: "num_thread (common s) = int (length (frames s))"
    using sh t by (simp_all add: shape_def)
  have n1: "1 \<le> int (length (frames s))" using t by simp
  have r: "\<And>j. j < length (frames s) \<Longrightarrow> 0 \<le> wq_next (workqueues s ! j) \<and>
      wq_next (workqueues s ! j) \<le> wq_last (workqueues s ! j) \<and>
      wq_last (workqueues s ! j) \<le> batch_size s"
    using ri len by (simp add: range_inv_def)
  have l1: "\<And>j. j < length (frames s) \<Longrightarrow> wq_lock (workqueues s ! j) \<le> 1"
    using lock_le_1 [OF sh li] .
  have fo: "frame_ok (common s) A (frames s ! t)" using fi t by (simp add: frame_inv_def)
  have h: "holds (frames s ! t) t" using p tid by (simp add: holds_def)
  have lk: "wq_lock (workqueues s ! t) = 1" using holder_lock [OF sh li t t h] .
  have f: "0 \<le> AMT (frames s ! t)" "AMT (frames s ! t) \<le> GRANULARITY"
    "last_snap (frames s ! t) \<le> item (frames s ! t) \<longleftrightarrow> AMT (frames s ! t) = 0"
    using fo p by (simp_all add: frame_ok_def)
  have "step_spec f A s t (if last_snap (frames s ! t) \<le> item (frames s ! t)
             then (frames s ! t)\<lparr>pc := StealCond, steal_continue := 1\<rparr>
             else (frames s ! t)\<lparr>pc := DrainWork, count := AMT (frames s ! t),
                     arg_ptrs := do_work_ptrs (common s) A (item (frames s ! t)),
                     arg_steps := do_work_steps (common s) A, offset := 0\<rparr>)
        (t) ((workqueues s ! t)\<lparr>wq_lock := 0\<rparr>)
        (contexts s ! t) (mem s)
        []"
    unfolding step_spec_def
  proof (intro conjI impI)
    show "t < length (frames s)" by (rule t)
    show "step_thread f A t s = upd t (if last_snap (frames s ! t) \<le> item (frames s ! t)
             then (frames s ! t)\<lparr>pc := StealCond, steal_continue := 1\<rparr>
             else (frames s ! t)\<lparr>pc := DrainWork, count := AMT (frames s ! t),
                     arg_ptrs := do_work_ptrs (common s) A (item (frames s ! t)),
                     arg_steps := do_work_steps (common s) A, offset := 0\<rparr>)
        (t) ((workqueues s ! t)\<lparr>wq_lock := 0\<rparr>)
        (contexts s ! t) (mem s)
        [] s"
      using lk by (simp add: step_DrainUnlock [OF t p] tid)
    show "local_ok A s t (if last_snap (frames s ! t) \<le> item (frames s ! t)
             then (frames s ! t)\<lparr>pc := StealCond, steal_continue := 1\<rparr>
             else (frames s ! t)\<lparr>pc := DrainWork, count := AMT (frames s ! t),
                     arg_ptrs := do_work_ptrs (common s) A (item (frames s ! t)),
                     arg_steps := do_work_steps (common s) A, offset := 0\<rparr>)
        (t) ((workqueues s ! t)\<lparr>wq_lock := 0\<rparr>)
        (contexts s ! t)
        []"
      using p tid lk f r [OF t]
      by (simp add: local_defs do_work_ptrs_def do_work_steps_def elem_addr_def)
    show "local_frame s t (if last_snap (frames s ! t) \<le> item (frames s ! t)
             then (frames s ! t)\<lparr>pc := StealCond, steal_continue := 1\<rparr>
             else (frames s ! t)\<lparr>pc := DrainWork, count := AMT (frames s ! t),
                     arg_ptrs := do_work_ptrs (common s) A (item (frames s ! t)),
                     arg_steps := do_work_steps (common s) A, offset := 0\<rparr>)
        (t) ((workqueues s ! t)\<lparr>wq_lock := 0\<rparr>)
        (contexts s ! t)"
      using p tid by (simp add: frame_defs)
    show "local_dec s t (if last_snap (frames s ! t) \<le> item (frames s ! t)
             then (frames s ! t)\<lparr>pc := StealCond, steal_continue := 1\<rparr>
             else (frames s ! t)\<lparr>pc := DrainWork, count := AMT (frames s ! t),
                     arg_ptrs := do_work_ptrs (common s) A (item (frames s ! t)),
                     arg_steps := do_work_steps (common s) A, offset := 0\<rparr>)
        (t) ((workqueues s ! t)\<lparr>wq_lock := 0\<rparr>)"
      using p f by (simp add: rank_defs)
    show "mem_ok f A s t (if last_snap (frames s ! t) \<le> item (frames s ! t)
             then (frames s ! t)\<lparr>pc := StealCond, steal_continue := 1\<rparr>
             else (frames s ! t)\<lparr>pc := DrainWork, count := AMT (frames s ! t),
                     arg_ptrs := do_work_ptrs (common s) A (item (frames s ! t)),
                     arg_steps := do_work_steps (common s) A, offset := 0\<rparr>)
        (t) ((workqueues s ! t)\<lparr>wq_lock := 0\<rparr>)
        (mem s)" if vb: "valid_batch (common s) A"
      using p f by (auto simp: memok_defs)
  qed
  then show ?thesis by blast
qed

lemma step_spec_DrainWork:
  assumes inv: "engine_inv A s" and t: "t < length (frames s)"
    and p: "pc (frames s ! t) = DrainWork"
  shows "\<exists>fr' j q' c' m' l. step_spec f A s t fr' j q' c' m' l"
proof -
  have sh: "shape s" and li: "lock_inv s" and ri: "range_inv s" and fi: "frame_inv A s"
    and di: "drained_inv s" and ti: "todo_inv s" using inv by (simp_all add: engine_inv_def)
  have tid: "tid (frames s ! t) = t" and len: "length (workqueues s) = length (frames s)"
    and nt: "num_thread (common s) = int (length (frames s))"
    using sh t by (simp_all add: shape_def)
  have n1: "1 \<le> int (length (frames s))" using t by simp
  have r: "\<And>j. j < length (frames s) \<Longrightarrow> 0 \<le> wq_next (workqueues s ! j) \<and>
      wq_next (workqueues s ! j) \<le> wq_last (workqueues s ! j) \<and>
      wq_last (workqueues s ! j) \<le> batch_size s"
    using ri len by (simp add: range_inv_def)
  have l1: "\<And>j. j < length (frames s) \<Longrightarrow> wq_lock (workqueues s ! j) \<le> 1"
    using lock_le_1 [OF sh li] .
  have fo: "frame_ok (common s) A (frames s ! t)" using fi t by (simp add: frame_inv_def)
  have am: "0 \<le> AMT (frames s ! t)" if "pc (frames s ! t) = DrainWork"
    using fo that by (simp add: frame_ok_def in_work_def)
  have f: "count (frames s ! t) = AMT (frames s ! t)" "0 \<le> offset (frames s ! t)"
    "offset (frames s ! t) \<le> count (frames s ! t)"
    "arg_ptrs (frames s ! t) =
       map (\<lambda>i. elem_addr (common s) i (item (frames s ! t) + offset (frames s ! t))) [0..<A + 1]"
    "arg_steps (frames s ! t) = map (\<lambda>i. steps (common s) ! i) [0..<A + 1]"
    using fo p by (simp_all add: frame_ok_def in_work_def)
  have adv: "map (\<lambda>i. arg_ptrs (frames s ! t) ! i + arg_steps (frames s ! t) ! i) [0..<A + 1] =
      map (\<lambda>i. elem_addr (common s) i (item (frames s ! t) + (offset (frames s ! t) + 1))) [0..<A + 1]"
    using advance_ptrs [OF f(4,5)] by (simp add: add.assoc)
  show ?thesis
  proof (cases "offset (frames s ! t) < count (frames s ! t)")
    case True
    have k0: "0 \<le> item (frames s ! t) + offset (frames s ! t) \<and>
        item (frames s ! t) + offset (frames s ! t) < batch_size s"
      by (rule pending_in_batch [OF ti t]) (use p True in \<open>simp add: pending_def in_work_def\<close>)
    have "step_spec f A s t ((frames s ! t)\<lparr>arg_ptrs := map (\<lambda>i. arg_ptrs (frames s ! t) ! i
                                                + arg_steps (frames s ! t) ! i) [0..<A + 1],
                       offset := offset (frames s ! t) + 1\<rparr>)
          (t) (workqueues s ! t)
          (contexts s ! t) ((mem s)(arg_ptrs (frames s ! t) ! A :=
                    f (map (\<lambda>i. mem s (arg_ptrs (frames s ! t) ! i)) [0..<A])))
          []"
      unfolding step_spec_def
    proof (intro conjI impI)
      show "t < length (frames s)" by (rule t)
      show "step_thread f A t s = upd t ((frames s ! t)\<lparr>arg_ptrs := map (\<lambda>i. arg_ptrs (frames s ! t) ! i
                                                + arg_steps (frames s ! t) ! i) [0..<A + 1],
                       offset := offset (frames s ! t) + 1\<rparr>)
          (t) (workqueues s ! t)
          (contexts s ! t) ((mem s)(arg_ptrs (frames s ! t) ! A :=
                    f (map (\<lambda>i. mem s (arg_ptrs (frames s ! t) ! i)) [0..<A])))
          [] s"
        using True by (simp add: step_DrainWork [OF t p] tid)
      show "local_ok A s t ((frames s ! t)\<lparr>arg_ptrs := map (\<lambda>i. arg_ptrs (frames s ! t) ! i
                                                + arg_steps (frames s ! t) ! i) [0..<A + 1],
                       offset := offset (frames s ! t) + 1\<rparr>)
          (t) (workqueues s ! t)
          (contexts s ! t)
          []"
        unfolding adv using p tid f(1,2,3,5) True r [OF t] l1 [OF t] am [OF p]
          by (simp add: local_defs)
      show "local_frame s t ((frames s ! t)\<lparr>arg_ptrs := map (\<lambda>i. arg_ptrs (frames s ! t) ! i
                                                + arg_steps (frames s ! t) ! i) [0..<A + 1],
                       offset := offset (frames s ! t) + 1\<rparr>)
          (t) (workqueues s ! t)
          (contexts s ! t)"
        using p tid by (simp add: frame_defs)
      show "local_dec s t ((frames s ! t)\<lparr>arg_ptrs := map (\<lambda>i. arg_ptrs (frames s ! t) ! i
                                                + arg_steps (frames s ! t) ! i) [0..<A + 1],
                       offset := offset (frames s ! t) + 1\<rparr>)
          (t) (workqueues s ! t)"
        using p True by (simp add: rank_defs)
      show "mem_ok f A s t ((frames s ! t)\<lparr>arg_ptrs := map (\<lambda>i. arg_ptrs (frames s ! t) ! i
                                                + arg_steps (frames s ! t) ! i) [0..<A + 1],
                       offset := offset (frames s ! t) + 1\<rparr>)
          (t) (workqueues s ! t)
          ((mem s)(arg_ptrs (frames s ! t) ! A :=
                    f (map (\<lambda>i. mem s (arg_ptrs (frames s ! t) ! i)) [0..<A])))" if vb: "valid_batch (common s) A"
        proof (rule work_iter_mem_ok [OF vb _ _ f(4)])
          show "0 \<le> item (frames s ! t) + offset (frames s ! t)" using k0 by simp
          show "item (frames s ! t) + offset (frames s ! t) < batch_size s" using k0 by simp
          fix k
          show "(of_bool (k \<in> wq_range (workqueues s ! t)) +
              of_bool (k \<in> pending ((frames s ! t)\<lparr>arg_ptrs := map (\<lambda>i. arg_ptrs (frames s ! t) ! i
                                                + arg_steps (frames s ! t) ! i) [0..<A + 1],
                       offset := offset (frames s ! t) + 1\<rparr>)) <
              (of_bool (k \<in> wq_range (workqueues s ! t)) +
               of_bool (k \<in> pending (frames s ! t)) :: int)) =
              (k = item (frames s ! t) + offset (frames s ! t))"
            using p True by (auto simp: pending_def in_work_def)
        qed
    qed
    then show ?thesis by blast
  next
    case False
    have "step_spec f A s t ((frames s ! t)\<lparr>pc := DrainLock\<rparr>)
          (t) (workqueues s ! t)
          ((contexts s ! t)\<lparr>completed := completed (contexts s ! t) + AMT (frames s ! t)\<rparr>) (mem s)
          []"
      unfolding step_spec_def
    proof (intro conjI impI)
      show "t < length (frames s)" by (rule t)
      show "step_thread f A t s = upd t ((frames s ! t)\<lparr>pc := DrainLock\<rparr>)
          (t) (workqueues s ! t)
          ((contexts s ! t)\<lparr>completed := completed (contexts s ! t) + AMT (frames s ! t)\<rparr>) (mem s)
          [] s"
        using False by (simp add: step_DrainWork [OF t p] tid)
      show "local_ok A s t ((frames s ! t)\<lparr>pc := DrainLock\<rparr>)
          (t) (workqueues s ! t)
          ((contexts s ! t)\<lparr>completed := completed (contexts s ! t) + AMT (frames s ! t)\<rparr>)
          []"
        using p tid f(1,2,3) False r [OF t] l1 [OF t] am [OF p]
          by (simp add: local_defs)
      show "local_frame s t ((frames s ! t)\<lparr>pc := DrainLock\<rparr>)
          (t) (workqueues s ! t)
          ((contexts s ! t)\<lparr>completed := completed (contexts s ! t) + AMT (frames s ! t)\<rparr>)"
        using p tid f(1,2,3) by (simp add: frame_defs)
      show "local_dec s t ((frames s ! t)\<lparr>pc := DrainLock\<rparr>)
          (t) (workqueues s ! t)"
        using p False f(1,2,3) n1 by (simp add: rank_defs)
      show "mem_ok f A s t ((frames s ! t)\<lparr>pc := DrainLock\<rparr>)
          (t) (workqueues s ! t)
          (mem s)" if vb: "valid_batch (common s) A"
        using p False f(1,2,3) by (auto simp: memok_defs)
    qed
    then show ?thesis by blast
  qed
qed

lemma step_spec_StealCond:
  assumes inv: "engine_inv A s" and t: "t < length (frames s)"
    and p: "pc (frames s ! t) = StealCond"
  shows "\<exists>fr' j q' c' m' l. step_spec f A s t fr' j q' c' m' l"
proof -
  have sh: "shape s" and li: "lock_inv s" and ri: "range_inv s" and fi: "frame_inv A s"
    and di: "drained_inv s" and ti: "todo_inv s" using inv by (simp_all add: engine_inv_def)
  have tid: "tid (frames s ! t) = t" and len: "length (workqueues s) = length (frames s)"
    and nt: "num_thread (common s) = int (length (frames s))"
    using sh t by (simp_all add: shape_def)
  have n1: "1 \<le> int (length (frames s))" using t by simp
  have r: "\<And>j. j < length (frames s) \<Longrightarrow> 0 \<le> wq_next (workqueues s ! j) \<and>
      wq_next (workqueues s ! j) \<le> wq_last (workqueues s ! j) \<and>
      wq_last (workqueues s ! j) \<le> batch_size s"
    using ri len by (simp add: range_inv_def)
  have l1: "\<And>j. j < length (frames s) \<Longrightarrow> wq_lock (workqueues s ! j) \<le> 1"
    using lock_le_1 [OF sh li] .
  have fo: "frame_ok (common s) A (frames s ! t)" using fi t by (simp add: frame_inv_def)
  have "step_spec f A s t (if steal_continue (frames s ! t) \<noteq> 0
             then (frames s ! t)\<lparr>pc := StealFor, steal_continue := 0, peer := 0\<rparr>
             else (frames s ! t)\<lparr>pc := Ret\<rparr>)
        (t) (workqueues s ! t)
        (contexts s ! t) (mem s)
        []"
    unfolding step_spec_def
  proof (intro conjI impI)
    show "t < length (frames s)" by (rule t)
    show "step_thread f A t s = upd t (if steal_continue (frames s ! t) \<noteq> 0
             then (frames s ! t)\<lparr>pc := StealFor, steal_continue := 0, peer := 0\<rparr>
             else (frames s ! t)\<lparr>pc := Ret\<rparr>)
        (t) (workqueues s ! t)
        (contexts s ! t) (mem s)
        [] s"
      by (simp add: step_StealCond [OF t p] tid)
    show "local_ok A s t (if steal_continue (frames s ! t) \<noteq> 0
             then (frames s ! t)\<lparr>pc := StealFor, steal_continue := 0, peer := 0\<rparr>
             else (frames s ! t)\<lparr>pc := Ret\<rparr>)
        (t) (workqueues s ! t)
        (contexts s ! t)
        []"
      using p tid r [OF t] l1 [OF t] by (simp add: local_defs)
    show "local_frame s t (if steal_continue (frames s ! t) \<noteq> 0
             then (frames s ! t)\<lparr>pc := StealFor, steal_continue := 0, peer := 0\<rparr>
             else (frames s ! t)\<lparr>pc := Ret\<rparr>)
        (t) (workqueues s ! t)
        (contexts s ! t)"
      using p tid by (simp add: frame_defs)
    show "local_dec s t (if steal_continue (frames s ! t) \<noteq> 0
             then (frames s ! t)\<lparr>pc := StealFor, steal_continue := 0, peer := 0\<rparr>
             else (frames s ! t)\<lparr>pc := Ret\<rparr>)
        (t) (workqueues s ! t)"
      using p n1 by (simp add: rank_defs)
    show "mem_ok f A s t (if steal_continue (frames s ! t) \<noteq> 0
             then (frames s ! t)\<lparr>pc := StealFor, steal_continue := 0, peer := 0\<rparr>
             else (frames s ! t)\<lparr>pc := Ret\<rparr>)
        (t) (workqueues s ! t)
        (mem s)" if vb: "valid_batch (common s) A"
      using p by (auto simp: memok_defs)
  qed
  then show ?thesis by blast
qed

lemma step_spec_StealFor:
  assumes inv: "engine_inv A s" and t: "t < length (frames s)"
    and p: "pc (frames s ! t) = StealFor"
  shows "\<exists>fr' j q' c' m' l. step_spec f A s t fr' j q' c' m' l"
proof -
  have sh: "shape s" and li: "lock_inv s" and ri: "range_inv s" and fi: "frame_inv A s"
    and di: "drained_inv s" and ti: "todo_inv s" using inv by (simp_all add: engine_inv_def)
  have tid: "tid (frames s ! t) = t" and len: "length (workqueues s) = length (frames s)"
    and nt: "num_thread (common s) = int (length (frames s))"
    using sh t by (simp_all add: shape_def)
  have n1: "1 \<le> int (length (frames s))" using t by simp
  have r: "\<And>j. j < length (frames s) \<Longrightarrow> 0 \<le> wq_next (workqueues s ! j) \<and>
      wq_next (workqueues s ! j) \<le> wq_last (workqueues s ! j) \<and>
      wq_last (workqueues s ! j) \<le> batch_size s"
    using ri len by (simp add: range_inv_def)
  have l1: "\<And>j. j < length (frames s) \<Longrightarrow> wq_lock (workqueues s ! j) \<le> 1"
    using lock_le_1 [OF sh li] .
  have fo: "frame_ok (common s) A (frames s ! t)" using fi t by (simp add: frame_inv_def)
  have pl: "peer (frames s ! t) \<le> length (frames s)" using sh t p by (simp add: shape_def)
  have "step_spec f A s t (if int (peer (frames s ! t)) < num_thread (common s)
             then (if peer (frames s ! t) \<noteq> tid (frames s ! t)
                   then (frames s ! t)\<lparr>pc := StealLock\<rparr>
                   else (frames s ! t)\<lparr>peer := peer (frames s ! t) + 1\<rparr>)
             else (frames s ! t)\<lparr>pc := StealCond\<rparr>)
        (t) (workqueues s ! t)
        (contexts s ! t) (mem s)
        []"
    unfolding step_spec_def
  proof (intro conjI impI)
    show "t < length (frames s)" by (rule t)
    show "step_thread f A t s = upd t (if int (peer (frames s ! t)) < num_thread (common s)
             then (if peer (frames s ! t) \<noteq> tid (frames s ! t)
                   then (frames s ! t)\<lparr>pc := StealLock\<rparr>
                   else (frames s ! t)\<lparr>peer := peer (frames s ! t) + 1\<rparr>)
             else (frames s ! t)\<lparr>pc := StealCond\<rparr>)
        (t) (workqueues s ! t)
        (contexts s ! t) (mem s)
        [] s"
      by (simp add: step_StealFor [OF t p] tid)
    show "local_ok A s t (if int (peer (frames s ! t)) < num_thread (common s)
             then (if peer (frames s ! t) \<noteq> tid (frames s ! t)
                   then (frames s ! t)\<lparr>pc := StealLock\<rparr>
                   else (frames s ! t)\<lparr>peer := peer (frames s ! t) + 1\<rparr>)
             else (frames s ! t)\<lparr>pc := StealCond\<rparr>)
        (t) (workqueues s ! t)
        (contexts s ! t)
        []"
      using p tid r [OF t] l1 [OF t] nt pl by (simp add: local_defs)
    show "local_frame s t (if int (peer (frames s ! t)) < num_thread (common s)
             then (if peer (frames s ! t) \<noteq> tid (frames s ! t)
                   then (frames s ! t)\<lparr>pc := StealLock\<rparr>
                   else (frames s ! t)\<lparr>peer := peer (frames s ! t) + 1\<rparr>)
             else (frames s ! t)\<lparr>pc := StealCond\<rparr>)
        (t) (workqueues s ! t)
        (contexts s ! t)"
      using p tid by (simp add: frame_defs)
    show "local_dec s t (if int (peer (frames s ! t)) < num_thread (common s)
             then (if peer (frames s ! t) \<noteq> tid (frames s ! t)
                   then (frames s ! t)\<lparr>pc := StealLock\<rparr>
                   else (frames s ! t)\<lparr>peer := peer (frames s ! t) + 1\<rparr>)
             else (frames s ! t)\<lparr>pc := StealCond\<rparr>)
        (t) (workqueues s ! t)"
      using p nt pl by (simp add: rank_defs)
    show "mem_ok f A s t (if int (peer (frames s ! t)) < num_thread (common s)
             then (if peer (frames s ! t) \<noteq> tid (frames s ! t)
                   then (frames s ! t)\<lparr>pc := StealLock\<rparr>
                   else (frames s ! t)\<lparr>peer := peer (frames s ! t) + 1\<rparr>)
             else (frames s ! t)\<lparr>pc := StealCond\<rparr>)
        (t) (workqueues s ! t)
        (mem s)" if vb: "valid_batch (common s) A"
      using p by (auto simp: memok_defs)
  qed
  then show ?thesis by blast
qed

lemma step_spec_StealLock:
  assumes inv: "engine_inv A s" and t: "t < length (frames s)"
    and p: "pc (frames s ! t) = StealLock"
    and free: "wq_lock (workqueues s ! peer (frames s ! t)) = 0"
  shows "\<exists>fr' j q' c' m' l. step_spec f A s t fr' j q' c' m' l"
proof -
  have sh: "shape s" and li: "lock_inv s" and ri: "range_inv s" and fi: "frame_inv A s"
    and di: "drained_inv s" and ti: "todo_inv s" using inv by (simp_all add: engine_inv_def)
  have tid: "tid (frames s ! t) = t" and len: "length (workqueues s) = length (frames s)"
    and nt: "num_thread (common s) = int (length (frames s))"
    using sh t by (simp_all add: shape_def)
  have n1: "1 \<le> int (length (frames s))" using t by simp
  have r: "\<And>j. j < length (frames s) \<Longrightarrow> 0 \<le> wq_next (workqueues s ! j) \<and>
      wq_next (workqueues s ! j) \<le> wq_last (workqueues s ! j) \<and>
      wq_last (workqueues s ! j) \<le> batch_size s"
    using ri len by (simp add: range_inv_def)
  have l1: "\<And>j. j < length (frames s) \<Longrightarrow> wq_lock (workqueues s ! j) \<le> 1"
    using lock_le_1 [OF sh li] .
  have fo: "frame_ok (common s) A (frames s ! t)" using fi t by (simp add: frame_inv_def)
  have pr: "peer (frames s ! t) < length (frames s)" "peer (frames s ! t) \<noteq> t"
    using sh t p by (simp_all add: shape_def in_steal_check_def)
  have "step_spec f A s t ((frames s ! t)\<lparr>pc := StealCrit\<rparr>)
        (peer (frames s ! t)) ((workqueues s ! peer (frames s ! t))\<lparr>wq_lock := 1\<rparr>)
        (contexts s ! t) (mem s)
        []"
    unfolding step_spec_def
  proof (intro conjI impI)
    show "peer (frames s ! t) < length (frames s)" by (rule pr(1))
    show "step_thread f A t s = upd t ((frames s ! t)\<lparr>pc := StealCrit\<rparr>)
        (peer (frames s ! t)) ((workqueues s ! peer (frames s ! t))\<lparr>wq_lock := 1\<rparr>)
        (contexts s ! t) (mem s)
        [] s"
      using free by (simp add: step_StealLock [OF t p])
    show "local_ok A s t ((frames s ! t)\<lparr>pc := StealCrit\<rparr>)
        (peer (frames s ! t)) ((workqueues s ! peer (frames s ! t))\<lparr>wq_lock := 1\<rparr>)
        (contexts s ! t)
        []"
      using p tid free r [OF pr(1)] pr by (simp add: local_defs)
    show "local_frame s t ((frames s ! t)\<lparr>pc := StealCrit\<rparr>)
        (peer (frames s ! t)) ((workqueues s ! peer (frames s ! t))\<lparr>wq_lock := 1\<rparr>)
        (contexts s ! t)"
      using p tid pr by (simp add: frame_defs)
    show "local_dec s t ((frames s ! t)\<lparr>pc := StealCrit\<rparr>)
        (peer (frames s ! t)) ((workqueues s ! peer (frames s ! t))\<lparr>wq_lock := 1\<rparr>)"
      using p by (simp add: rank_defs)
    show "mem_ok f A s t ((frames s ! t)\<lparr>pc := StealCrit\<rparr>)
        (peer (frames s ! t)) ((workqueues s ! peer (frames s ! t))\<lparr>wq_lock := 1\<rparr>)
        (mem s)" if vb: "valid_batch (common s) A"
      using p by (auto simp: memok_defs)
  qed
  then show ?thesis by blast
qed

lemma step_spec_StealCrit:
  assumes inv: "engine_inv A s" and t: "t < length (frames s)"
    and p: "pc (frames s ! t) = StealCrit"
  shows "\<exists>fr' j q' c' m' l. step_spec f A s t fr' j q' c' m' l"
proof -
  have sh: "shape s" and li: "lock_inv s" and ri: "range_inv s" and fi: "frame_inv A s"
    and di: "drained_inv s" and ti: "todo_inv s" using inv by (simp_all add: engine_inv_def)
  have tid: "tid (frames s ! t) = t" and len: "length (workqueues s) = length (frames s)"
    and nt: "num_thread (common s) = int (length (frames s))"
    using sh t by (simp_all add: shape_def)
  have n1: "1 \<le> int (length (frames s))" using t by simp
  have r: "\<And>j. j < length (frames s) \<Longrightarrow> 0 \<le> wq_next (workqueues s ! j) \<and>
      wq_next (workqueues s ! j) \<le> wq_last (workqueues s ! j) \<and>
      wq_last (workqueues s ! j) \<le> batch_size s"
    using ri len by (simp add: range_inv_def)
  have l1: "\<And>j. j < length (frames s) \<Longrightarrow> wq_lock (workqueues s ! j) \<le> 1"
    using lock_le_1 [OF sh li] .
  have fo: "frame_ok (common s) A (frames s ! t)" using fi t by (simp add: frame_inv_def)
  have pr: "peer (frames s ! t) < length (frames s)" "peer (frames s ! t) \<noteq> t"
    using sh t p by (simp_all add: shape_def in_steal_check_def)
  define q where "q = workqueues s ! peer (frames s ! t)"
  have rq: "0 \<le> wq_next q" "wq_next q \<le> wq_last q" "wq_last q \<le> batch_size s"
    using r [OF pr(1)] by (simp_all add: q_def)
  have lq: "wq_lock q \<le> 1" using l1 [OF pr(1)] by (simp add: q_def)
  have pl: "int (peer (frames s ! t)) < int (length (frames s))" using pr by simp
  show ?thesis
  proof (cases "wq_next q \<le> wq_last q - GRANULARITY")
    case True
    have "step_spec f A s t ((frames s ! t)\<lparr>pc := StealUnlockT, item := wq_last q - GRANULARITY\<rparr>)
          (peer (frames s ! t)) (q\<lparr>wq_last := wq_last q - GRANULARITY\<rparr>)
          (contexts s ! t) (mem s)
          [(t, wq_last q - GRANULARITY, GRANULARITY)]"
      unfolding step_spec_def
    proof (intro conjI impI)
      show "peer (frames s ! t) < length (frames s)" by (rule pr(1))
      show "step_thread f A t s = upd t ((frames s ! t)\<lparr>pc := StealUnlockT, item := wq_last q - GRANULARITY\<rparr>)
          (peer (frames s ! t)) (q\<lparr>wq_last := wq_last q - GRANULARITY\<rparr>)
          (contexts s ! t) (mem s)
          [(t, wq_last q - GRANULARITY, GRANULARITY)] s"
        using True by (simp add: step_StealCrit [OF t p] q_def)
      show "local_ok A s t ((frames s ! t)\<lparr>pc := StealUnlockT, item := wq_last q - GRANULARITY\<rparr>)
          (peer (frames s ! t)) (q\<lparr>wq_last := wq_last q - GRANULARITY\<rparr>)
          (contexts s ! t)
          [(t, wq_last q - GRANULARITY, GRANULARITY)]"
        unfolding local_ok_def
        proof (intro conjI allI impI)
          fix k
          show "of_bool (k \<in> wq_range (q\<lparr>wq_last := wq_last q - GRANULARITY\<rparr>)) +
              int (length (filter (covers k) [(t, wq_last q - GRANULARITY, GRANULARITY)])) =
              (of_bool (k \<in> wq_range (workqueues s ! peer (frames s ! t))) :: int)"
            using True rq by (auto simp: wq_range_def covers_def GRANULARITY_def q_def [symmetric])
        next
          fix k
          show "of_bool (k \<in> wq_range (q\<lparr>wq_last := wq_last q - GRANULARITY\<rparr>)) +
              of_bool (k \<in> pending ((frames s ! t)\<lparr>pc := StealUnlockT, item := wq_last q - GRANULARITY\<rparr>)) \<le>
              (of_bool (k \<in> wq_range (workqueues s ! peer (frames s ! t))) +
               of_bool (k \<in> pending (frames s ! t)) :: int)"
            using True rq p
            by (auto simp: wq_range_def pending_def in_work_def GRANULARITY_def q_def [symmetric])
        qed (use p tid True rq lq pr in \<open>auto simp: holds_def frame_ok_def left_drain_def
            in_steal_check_def in_work_def inflight_def GRANULARITY_def q_def [symmetric]\<close>)
      show "local_frame s t ((frames s ! t)\<lparr>pc := StealUnlockT, item := wq_last q - GRANULARITY\<rparr>)
          (peer (frames s ! t)) (q\<lparr>wq_last := wq_last q - GRANULARITY\<rparr>)
          (contexts s ! t)"
        using p tid pr True by (simp add: frame_defs q_def [symmetric])
      show "local_dec s t ((frames s ! t)\<lparr>pc := StealUnlockT, item := wq_last q - GRANULARITY\<rparr>)
          (peer (frames s ! t)) (q\<lparr>wq_last := wq_last q - GRANULARITY\<rparr>)"
        proof -
          have "(int (length (frames s)) + 5) * (wq_last q - GRANULARITY - wq_next q) =
              (int (length (frames s)) + 5) * (wq_last q - wq_next q) -
              (int (length (frames s)) + 5) * 256"
            by (simp add: algebra_simps GRANULARITY_def)
          then show ?thesis using p pl n1
            by (simp add: rank_defs q_def [symmetric])
        qed
      show "mem_ok f A s t ((frames s ! t)\<lparr>pc := StealUnlockT, item := wq_last q - GRANULARITY\<rparr>)
          (peer (frames s ! t)) (q\<lparr>wq_last := wq_last q - GRANULARITY\<rparr>)
          (mem s)" if vb: "valid_batch (common s) A"
        using p True rq unfolding mem_ok_def
          by (auto simp: pending_def wq_range_def in_work_def GRANULARITY_def q_def [symmetric])
    qed
    then show ?thesis by blast
  next
    case False
    have "step_spec f A s t ((frames s ! t)\<lparr>pc := StealUnlockF\<rparr>)
          (peer (frames s ! t)) (q)
          (contexts s ! t) (mem s)
          []"
      unfolding step_spec_def
    proof (intro conjI impI)
      show "peer (frames s ! t) < length (frames s)" by (rule pr(1))
      show "step_thread f A t s = upd t ((frames s ! t)\<lparr>pc := StealUnlockF\<rparr>)
          (peer (frames s ! t)) (q)
          (contexts s ! t) (mem s)
          [] s"
        using False by (simp add: step_StealCrit [OF t p] q_def)
      show "local_ok A s t ((frames s ! t)\<lparr>pc := StealUnlockF\<rparr>)
          (peer (frames s ! t)) (q)
          (contexts s ! t)
          []"
        using p tid rq lq pr by (simp add: local_defs q_def [symmetric])
      show "local_frame s t ((frames s ! t)\<lparr>pc := StealUnlockF\<rparr>)
          (peer (frames s ! t)) (q)
          (contexts s ! t)"
        using p tid pr by (simp add: frame_defs q_def [symmetric])
      show "local_dec s t ((frames s ! t)\<lparr>pc := StealUnlockF\<rparr>)
          (peer (frames s ! t)) (q)"
        using p by (simp add: rank_defs q_def [symmetric])
      show "mem_ok f A s t ((frames s ! t)\<lparr>pc := StealUnlockF\<rparr>)
          (peer (frames s ! t)) (q)
          (mem s)" if vb: "valid_batch (common s) A"
        using p by (auto simp: memok_defs q_def [symmetric])
    qed
    then show ?thesis by blast
  qed
qed

lemma step_spec_StealUnlockT:
  assumes inv: "engine_inv A s" and t: "t < length (frames s)"
    and p: "pc (frames s ! t) = StealUnlockT"
  shows "\<exists>fr' j q' c' m' l. step_spec f A s t fr' j q' c' m' l"
proof -
  have sh: "shape s" and li: "lock_inv s" and ri: "range_inv s" and fi: "frame_inv A s"
    and di: "drained_inv s" and ti: "todo_inv s" using inv by (simp_all add: engine_inv_def)
  have tid: "tid (frames s ! t) = t" and len: "length (workqueues s) = length (frames s)"
    and nt: "num_thread (common s) = int (length (frames s))"
    using sh t by (simp_all add: shape_def)
  have n1: "1 \<le> int (length (frames s))" using t by simp
  have r: "\<And>j. j < length (frames s) \<Longrightarrow> 0 \<le> wq_next (workqueues s ! j) \<and>
      wq_next (workqueues s ! j) \<le> wq_last (workqueues s ! j) \<and>
      wq_last (workqueues s ! j) \<le> batch_size s"
    using ri len by (simp add: range_inv_def)
  have l1: "\<And>j. j < length (frames s) \<Longrightarrow> wq_lock (workqueues s ! j) \<le> 1"
    using lock_le_1 [OF sh li] .
  have fo: "frame_ok (common s) A (frames s ! t)" using fi t by (simp add: frame_inv_def)
  have pr: "peer (frames s ! t) < length (frames s)" "peer (frames s ! t) \<noteq> t"
    using sh t p by (simp_all add: shape_def in_steal_check_def)
  have h: "holds (frames s ! t) (peer (frames s ! t))" using p by (simp add: holds_def)
  have lk: "wq_lock (workqueues s ! peer (frames s ! t)) = 1"
    using holder_lock [OF sh li t pr(1) h] .
  have "step_spec f A s t ((frames s ! t)\<lparr>pc := StealWork, count := GRANULARITY,
                arg_ptrs := do_work_ptrs (common s) A (item (frames s ! t)),
                arg_steps := do_work_steps (common s) A, offset := 0\<rparr>)
        (peer (frames s ! t)) ((workqueues s ! peer (frames s ! t))\<lparr>wq_lock := 0\<rparr>)
        (contexts s ! t) (mem s)
        []"
    unfolding step_spec_def
  proof (intro conjI impI)
    show "peer (frames s ! t) < length (frames s)" by (rule pr(1))
    show "step_thread f A t s = upd t ((frames s ! t)\<lparr>pc := StealWork, count := GRANULARITY,
                arg_ptrs := do_work_ptrs (common s) A (item (frames s ! t)),
                arg_steps := do_work_steps (common s) A, offset := 0\<rparr>)
        (peer (frames s ! t)) ((workqueues s ! peer (frames s ! t))\<lparr>wq_lock := 0\<rparr>)
        (contexts s ! t) (mem s)
        [] s"
      using lk by (simp add: step_StealUnlockT [OF t p])
    show "local_ok A s t ((frames s ! t)\<lparr>pc := StealWork, count := GRANULARITY,
                arg_ptrs := do_work_ptrs (common s) A (item (frames s ! t)),
                arg_steps := do_work_steps (common s) A, offset := 0\<rparr>)
        (peer (frames s ! t)) ((workqueues s ! peer (frames s ! t))\<lparr>wq_lock := 0\<rparr>)
        (contexts s ! t)
        []"
      using p tid lk r [OF pr(1)] pr
      by (simp add: local_defs do_work_ptrs_def do_work_steps_def elem_addr_def)
    show "local_frame s t ((frames s ! t)\<lparr>pc := StealWork, count := GRANULARITY,
                arg_ptrs := do_work_ptrs (common s) A (item (frames s ! t)),
                arg_steps := do_work_steps (common s) A, offset := 0\<rparr>)
        (peer (frames s ! t)) ((workqueues s ! peer (frames s ! t))\<lparr>wq_lock := 0\<rparr>)
        (contexts s ! t)"
      using p tid pr by (simp add: frame_defs)
    show "local_dec s t ((frames s ! t)\<lparr>pc := StealWork, count := GRANULARITY,
                arg_ptrs := do_work_ptrs (common s) A (item (frames s ! t)),
                arg_steps := do_work_steps (common s) A, offset := 0\<rparr>)
        (peer (frames s ! t)) ((workqueues s ! peer (frames s ! t))\<lparr>wq_lock := 0\<rparr>)"
      using p by (simp add: rank_defs)
    show "mem_ok f A s t ((frames s ! t)\<lparr>pc := StealWork, count := GRANULARITY,
                arg_ptrs := do_work_ptrs (common s) A (item (frames s ! t)),
                arg_steps := do_work_steps (common s) A, offset := 0\<rparr>)
        (peer (frames s ! t)) ((workqueues s ! peer (frames s ! t))\<lparr>wq_lock := 0\<rparr>)
        (mem s)" if vb: "valid_batch (common s) A"
      using p by (auto simp: memok_defs)
  qed
  then show ?thesis by blast
qed

lemma step_spec_StealWork:
  assumes inv: "engine_inv A s" and t: "t < length (frames s)"
    and p: "pc (frames s ! t) = StealWork"
  shows "\<exists>fr' j q' c' m' l. step_spec f A s t fr' j q' c' m' l"
proof -
  have sh: "shape s" and li: "lock_inv s" and ri: "range_inv s" and fi: "frame_inv A s"
    and di: "drained_inv s" and ti: "todo_inv s" using inv by (simp_all add: engine_inv_def)
  have tid: "tid (frames s ! t) = t" and len: "length (workqueues s) = length (frames s)"
    and nt: "num_thread (common s) = int (length (frames s))"
    using sh t by (simp_all add: shape_def)
  have n1: "1 \<le> int (length (frames s))" using t by simp
  have r: "\<And>j. j < length (frames s) \<Longrightarrow> 0 \<le> wq_next (workqueues s ! j) \<and>
      wq_next (workqueues s ! j) \<le> wq_last (workqueues s ! j) \<and>
      wq_last (workqueues s ! j) \<le> batch_size s"
    using ri len by (simp add: range_inv_def)
  have l1: "\<And>j. j < length (frames s) \<Longrightarrow> wq_lock (workqueues s ! j) \<le> 1"
    using lock_le_1 [OF sh li] .
  have fo: "frame_ok (common s) A (frames s ! t)" using fi t by (simp add: frame_inv_def)
  have pr: "peer (frames s ! t) < length (frames s)" "peer (frames s ! t) \<noteq> t"
    using sh t p by (simp_all add: shape_def)
  have f: "count (frames s ! t) = GRANULARITY" "0 \<le> offset (frames s ! t)"
    "offset (frames s ! t) \<le> count (frames s ! t)"
    "arg_ptrs (frames s ! t) =
       map (\<lambda>i. elem_addr (common s) i (item (frames s ! t) + offset (frames s ! t))) [0..<A + 1]"
    "arg_steps (frames s ! t) = map (\<lambda>i. steps (common s) ! i) [0..<A + 1]"
    using fo p by (simp_all add: frame_ok_def in_work_def)
  have adv: "map (\<lambda>i. arg_ptrs (frames s ! t) ! i + arg_steps (frames s ! t) ! i) [0..<A + 1] =
      map (\<lambda>i. elem_addr (common s) i (item (frames s ! t) + (offset (frames s ! t) + 1))) [0..<A + 1]"
    using advance_ptrs [OF f(4,5)] by (simp add: add.assoc)
  show ?thesis
  proof (cases "offset (frames s ! t) < count (frames s ! t)")
    case True
    have k0: "0 \<le> item (frames s ! t) + offset (frames s ! t) \<and>
        item (frames s ! t) + offset (frames s ! t) < batch_size s"
      by (rule pending_in_batch [OF ti t]) (use p True in \<open>simp add: pending_def in_work_def\<close>)
    have "step_spec f A s t ((frames s ! t)\<lparr>arg_ptrs := map (\<lambda>i. arg_ptrs (frames s ! t) ! i
                                                + arg_steps (frames s ! t) ! i) [0..<A + 1],
                       offset := offset (frames s ! t) + 1\<rparr>)
          (t) (workqueues s ! t)
          (contexts s ! t) ((mem s)(arg_ptrs (frames s ! t) ! A :=
                    f (map (\<lambda>i. mem s (arg_ptrs (frames s ! t) ! i)) [0..<A])))
          []"
      unfolding step_spec_def
    proof (intro conjI impI)
      show "t < length (frames s)" by (rule t)
      show "step_thread f A t s = upd t ((frames s ! t)\<lparr>arg_ptrs := map (\<lambda>i. arg_ptrs (frames s ! t) ! i
                                                + arg_steps (frames s ! t) ! i) [0..<A + 1],
                       offset := offset (frames s ! t) + 1\<rparr>)
          (t) (workqueues s ! t)
          (contexts s ! t) ((mem s)(arg_ptrs (frames s ! t) ! A :=
                    f (map (\<lambda>i. mem s (arg_ptrs (frames s ! t) ! i)) [0..<A])))
          [] s"
        using True by (simp add: step_StealWork [OF t p] tid)
      show "local_ok A s t ((frames s ! t)\<lparr>arg_ptrs := map (\<lambda>i. arg_ptrs (frames s ! t) ! i
                                                + arg_steps (frames s ! t) ! i) [0..<A + 1],
                       offset := offset (frames s ! t) + 1\<rparr>)
          (t) (workqueues s ! t)
          (contexts s ! t)
          []"
        unfolding adv using p tid f(1,2,3,5) True r [OF t] l1 [OF t] pr
          by (simp add: local_defs)
      show "local_frame s t ((frames s ! t)\<lparr>arg_ptrs := map (\<lambda>i. arg_ptrs (frames s ! t) ! i
                                                + arg_steps (frames s ! t) ! i) [0..<A + 1],
                       offset := offset (frames s ! t) + 1\<rparr>)
          (t) (workqueues s ! t)
          (contexts s ! t)"
        using p tid by (simp add: frame_defs)
      show "local_dec s t ((frames s ! t)\<lparr>arg_ptrs := map (\<lambda>i. arg_ptrs (frames s ! t) ! i
                                                + arg_steps (frames s ! t) ! i) [0..<A + 1],
                       offset := offset (frames s ! t) + 1\<rparr>)
          (t) (workqueues s ! t)"
        using p True by (simp add: rank_defs)
      show "mem_ok f A s t ((frames s ! t)\<lparr>arg_ptrs := map (\<lambda>i. arg_ptrs (frames s ! t) ! i
                                                + arg_steps (frames s ! t) ! i) [0..<A + 1],
                       offset := offset (frames s ! t) + 1\<rparr>)
          (t) (workqueues s ! t)
          ((mem s)(arg_ptrs (frames s ! t) ! A :=
                    f (map (\<lambda>i. mem s (arg_ptrs (frames s ! t) ! i)) [0..<A])))" if vb: "valid_batch (common s) A"
        proof (rule work_iter_mem_ok [OF vb _ _ f(4)])
          show "0 \<le> item (frames s ! t) + offset (frames s ! t)" using k0 by simp
          show "item (frames s ! t) + offset (frames s ! t) < batch_size s" using k0 by simp
          fix k
          show "(of_bool (k \<in> wq_range (workqueues s ! t)) +
              of_bool (k \<in> pending ((frames s ! t)\<lparr>arg_ptrs := map (\<lambda>i. arg_ptrs (frames s ! t) ! i
                                                + arg_steps (frames s ! t) ! i) [0..<A + 1],
                       offset := offset (frames s ! t) + 1\<rparr>)) <
              (of_bool (k \<in> wq_range (workqueues s ! t)) +
               of_bool (k \<in> pending (frames s ! t)) :: int)) =
              (k = item (frames s ! t) + offset (frames s ! t))"
            using p True by (auto simp: pending_def in_work_def)
        qed
    qed
    then show ?thesis by blast
  next
    case False
    have "step_spec f A s t ((frames s ! t)\<lparr>pc := StealFor, steal_continue := 1, peer := peer (frames s ! t) + 1\<rparr>)
          (t) (workqueues s ! t)
          ((contexts s ! t)\<lparr>completed := completed (contexts s ! t) + GRANULARITY\<rparr>) (mem s)
          []"
      unfolding step_spec_def
    proof (intro conjI impI)
      show "t < length (frames s)" by (rule t)
      show "step_thread f A t s = upd t ((frames s ! t)\<lparr>pc := StealFor, steal_continue := 1, peer := peer (frames s ! t) + 1\<rparr>)
          (t) (workqueues s ! t)
          ((contexts s ! t)\<lparr>completed := completed (contexts s ! t) + GRANULARITY\<rparr>) (mem s)
          [] s"
        using False by (simp add: step_StealWork [OF t p] tid)
      show "local_ok A s t ((frames s ! t)\<lparr>pc := StealFor, steal_continue := 1, peer := peer (frames s ! t) + 1\<rparr>)
          (t) (workqueues s ! t)
          ((contexts s ! t)\<lparr>completed := completed (contexts s ! t) + GRANULARITY\<rparr>)
          []"
        using p tid f(1,2,3) False r [OF t] l1 [OF t] pr
          by (simp add: local_defs)
      show "local_frame s t ((frames s ! t)\<lparr>pc := StealFor, steal_continue := 1, peer := peer (frames s ! t) + 1\<rparr>)
          (t) (workqueues s ! t)
          ((contexts s ! t)\<lparr>completed := completed (contexts s ! t) + GRANULARITY\<rparr>)"
        using p tid f(1,2,3) by (simp add: frame_defs)
      show "local_dec s t ((frames s ! t)\<lparr>pc := StealFor, steal_continue := 1, peer := peer (frames s ! t) + 1\<rparr>)
          (t) (workqueues s ! t)"
        using p False f(1,2,3) n1 by (simp add: rank_defs)
      show "mem_ok f A s t ((frames s ! t)\<lparr>pc := StealFor, steal_continue := 1, peer := peer (frames s ! t) + 1\<rparr>)
          (t) (workqueues s ! t)
          (mem s)" if vb: "valid_batch (common s) A"
        using p False f(1,2,3) by (auto simp: memok_defs)
    qed
    then show ?thesis by blast
  qed
qed

lemma step_spec_StealUnlockF:
  assumes inv: "engine_inv A s" and t: "t < length (frames s)"
    and p: "pc (frames s ! t) = StealUnlockF"
  shows "\<exists>fr' j q' c' m' l. step_spec f A s t fr' j q' c' m' l"
proof -
  have sh: "shape s" and li: "lock_inv s" and ri: "range_inv s" and fi: "frame_inv A s"
    and di: "drained_inv s" and ti: "todo_inv s" using inv by (simp_all add: engine_inv_def)
  have tid: "tid (frames s ! t) = t" and len: "length (workqueues s) = length (frames s)"
    and nt: "num_thread (common s) = int (length (frames s))"
    using sh t by (simp_all add: shape_def)
  have n1: "1 \<le> int (length (frames s))" using t by simp
  have r: "\<And>j. j < length (frames s) \<Longrightarrow> 0 \<le> wq_next (workqueues s ! j) \<and>
      wq_next (workqueues s ! j) \<le> wq_last (workqueues s ! j) \<and>
      wq_last (workqueues s ! j) \<le> batch_size s"
    using ri len by (simp add: range_inv_def)
  have l1: "\<And>j. j < length (frames s) \<Longrightarrow> wq_lock (workqueues s ! j) \<le> 1"
    using lock_le_1 [OF sh li] .
  have fo: "frame_ok (common s) A (frames s ! t)" using fi t by (simp add: frame_inv_def)
  have pr: "peer (frames s ! t) < length (frames s)" "peer (frames s ! t) \<noteq> t"
    using sh t p by (simp_all add: shape_def in_steal_check_def)
  have h: "holds (frames s ! t) (peer (frames s ! t))" using p by (simp add: holds_def)
  have lk: "wq_lock (workqueues s ! peer (frames s ! t)) = 1"
    using holder_lock [OF sh li t pr(1) h] .
  have "step_spec f A s t ((frames s ! t)\<lparr>pc := StealFor, peer := peer (frames s ! t) + 1\<rparr>)
        (peer (frames s ! t)) ((workqueues s ! peer (frames s ! t))\<lparr>wq_lock := 0\<rparr>)
        (contexts s ! t) (mem s)
        []"
    unfolding step_spec_def
  proof (intro conjI impI)
    show "peer (frames s ! t) < length (frames s)" by (rule pr(1))
    show "step_thread f A t s = upd t ((frames s ! t)\<lparr>pc := StealFor, peer := peer (frames s ! t) + 1\<rparr>)
        (peer (frames s ! t)) ((workqueues s ! peer (frames s ! t))\<lparr>wq_lock := 0\<rparr>)
        (contexts s ! t) (mem s)
        [] s"
      using lk by (simp add: step_StealUnlockF [OF t p])
    show "local_ok A s t ((frames s ! t)\<lparr>pc := StealFor, peer := peer (frames s ! t) + 1\<rparr>)
        (peer (frames s ! t)) ((workqueues s ! peer (frames s ! t))\<lparr>wq_lock := 0\<rparr>)
        (contexts s ! t)
        []"
      using p tid lk r [OF pr(1)] pr by (simp add: local_defs)
    show "local_frame s t ((frames s ! t)\<lparr>pc := StealFor, peer := peer (frames s ! t) + 1\<rparr>)
        (peer (frames s ! t)) ((workqueues s ! peer (frames s ! t))\<lparr>wq_lock := 0\<rparr>)
        (contexts s ! t)"
      using p tid pr by (simp add: frame_defs)
    show "local_dec s t ((frames s ! t)\<lparr>pc := StealFor, peer := peer (frames s ! t) + 1\<rparr>)
        (peer (frames s ! t)) ((workqueues s ! peer (frames s ! t))\<lparr>wq_lock := 0\<rparr>)"
      using p by (simp add: rank_defs)
    show "mem_ok f A s t ((frames s ! t)\<lparr>pc := StealFor, peer := peer (frames s ! t) + 1\<rparr>)
        (peer (frames s ! t)) ((workqueues s ! peer (frames s ! t))\<lparr>wq_lock := 0\<rparr>)
        (mem s)" if vb: "valid_batch (common s) A"
      using p by (auto simp: memok_defs)
  qed
  then show ?thesis by blast
qed

text \<open>A thread that is enabled takes a step of the normal form; one that is not stays put.\<close>

lemma step_cases:
  assumes inv: "engine_inv A s" and en: "enabled s t"
  shows "\<exists>fr' j q' c' m' l. step_spec f A s t fr' j q' c' m' l"
proof -
  have t: "t < length (frames s)" using en by (simp add: enabled_def)
  show ?thesis
  proof (cases "pc (frames s ! t)")
    case DrainLock
    then show ?thesis using step_spec_DrainLock [OF inv t] en by (simp add: enabled_def)
  next
    case DrainCrit then show ?thesis using step_spec_DrainCrit [OF inv t] by simp
  next
    case DrainUnlock then show ?thesis using step_spec_DrainUnlock [OF inv t] by simp
  next
    case DrainWork then show ?thesis using step_spec_DrainWork [OF inv t] by simp
  next
    case StealCond then show ?thesis using step_spec_StealCond [OF inv t] by simp
  next
    case StealFor then show ?thesis using step_spec_StealFor [OF inv t] by simp
  next
    case StealLock
    then show ?thesis using step_spec_StealLock [OF inv t] en by (simp add: enabled_def)
  next
    case StealCrit then show ?thesis using step_spec_StealCrit [OF inv t] by simp
  next
    case StealUnlockT then show ?thesis using step_spec_StealUnlockT [OF inv t] by simp
  next
    case StealWork then show ?thesis using step_spec_StealWork [OF inv t] by simp
  next
    case StealUnlockF then show ?thesis using step_spec_StealUnlockF [OF inv t] by simp
  next
    case Ret then show ?thesis using en by (simp add: enabled_def)
  next
    case Trap then show ?thesis using en by (simp add: enabled_def)
  qed
qed

lemma step_not_enabled:
  assumes "\<not> enabled s t"
  shows "step_thread f A t s = s"
proof (cases "t < length (frames s)")
  case False
  then show ?thesis by (simp add: step_idle)
next
  case True
  consider "pc (frames s ! t) = Ret \<or> pc (frames s ! t) = Trap"
    | "pc (frames s ! t) = DrainLock" "wq_lock (workqueues s ! tid (frames s ! t)) \<noteq> 0"
    | "pc (frames s ! t) = StealLock" "wq_lock (workqueues s ! peer (frames s ! t)) \<noteq> 0"
    using assms True by (auto simp: enabled_def)
  then show ?thesis
  proof cases
    case 1 then show ?thesis by (simp add: step_idle)
  next
    case 2 then show ?thesis by (simp add: step_DrainLock [OF True])
  next
    case 3 then show ?thesis by (simp add: step_StealLock [OF True])
  qed
qed

lemma engine_inv_step:
  assumes "engine_inv A s"
  shows "engine_inv A (step_thread f A t s)"
proof (cases "enabled s t")
  case False
  then show ?thesis using assms by (simp add: step_not_enabled)
next
  case True
  then have t: "t < length (frames s)" by (simp add: enabled_def)
  from step_cases [OF assms True, of f]
  obtain fr' j q' c' m' l where "step_spec f A s t fr' j q' c' m' l" by blast
  then show ?thesis
    using engine_inv_upd [OF assms t] by (simp add: step_spec_def)
qed

lemma engine_inv_run:
  "engine_inv A s \<Longrightarrow> engine_inv A (run f A sched s)"
  by (induction sched arbitrary: s) (simp_all add: engine_inv_step)

section \<open>The state at dispatch\<close>

lemma sum_fresh_range:
  assumes "1 \<le> c"
  shows "(\<Sum>q\<leftarrow>map (fresh_wq c) [0..<m]. of_bool (k \<in> wq_range q)) =
           (of_bool (0 \<le> k \<and> k < int m * c) :: int)"
proof (induction m)
  case 0
  then show ?case by simp
next
  case (Suc m)
  have nn: "0 \<le> int m * c" using assms by simp
  have "(\<Sum>q\<leftarrow>map (fresh_wq c) [0..<Suc m]. of_bool (k \<in> wq_range q)) =
        (\<Sum>q\<leftarrow>map (fresh_wq c) [0..<m]. of_bool (k \<in> wq_range q)) +
        (of_bool (int m * c \<le> k \<and> k < (int m + 1) * c) :: int)"
    by (simp add: wq_range_def fresh_wq_def)
  also have "\<dots> = of_bool (0 \<le> k \<and> k < int m * c) +
        (of_bool (int m * c \<le> k \<and> k < (int m + 1) * c) :: int)"
    by (simp only: Suc.IH)
  also have "\<dots> = of_bool (0 \<le> k \<and> k < (int m + 1) * c)"
  proof -
    have "int m * c \<le> (int m + 1) * c" using assms by (simp add: algebra_simps)
    then show ?thesis using nn by (auto simp: of_bool_def)
  qed
  finally show ?case by (simp add: algebra_simps)
qed

lemma sum_fresh_size:
  "(\<Sum>q\<leftarrow>map (fresh_wq c) [0..<m]. wq_last q - wq_next q) = int m * c"
  by (induction m) (simp_all add: fresh_wq_def algebra_simps)

lemma initial_qcount:
  assumes c: "1 \<le> c" and n: "1 \<le> n" and le: "int n * c \<le> N"
  shows "(\<Sum>q\<leftarrow>initial_wqs c N n. of_bool (k \<in> wq_range q)) = (of_bool (0 \<le> k \<and> k < N) :: int)"
proof -
  define xs where "xs = map (fresh_wq c) [0..<n]"
  define F :: "WorkQueue \<Rightarrow> int" where "F = (\<lambda>q. of_bool (k \<in> wq_range q))"
  have n1: "n - 1 < length xs" using n by (simp add: xs_def)
  have e: "int (n - 1) = int n - 1" using n by simp
  have old: "F (xs ! (n - 1)) = of_bool ((int n - 1) * c \<le> k \<and> k < int n * c)"
    using n n1 by (simp add: xs_def F_def wq_range_def fresh_wq_def e del: One_nat_def)
  have new: "F ((fresh_wq c (n - 1))\<lparr>wq_last := N\<rparr>) = of_bool ((int n - 1) * c \<le> k \<and> k < N)"
    by (simp add: F_def wq_range_def fresh_wq_def e del: One_nat_def)
  have tot: "sum_list (map F xs) = of_bool (0 \<le> k \<and> k < int n * c)"
    unfolding F_def xs_def by (rule sum_fresh_range [OF c])
  have nn: "0 \<le> (int n - 1) * c" using c n by simp
  have lt: "(int n - 1) * c \<le> int n * c" using c by (simp add: algebra_simps)
  have "sum_list (map F (xs[n - 1 := (fresh_wq c (n - 1))\<lparr>wq_last := N\<rparr>])) =
        of_bool (0 \<le> k \<and> k < int n * c) + of_bool ((int n - 1) * c \<le> k \<and> k < N)
        - of_bool ((int n - 1) * c \<le> k \<and> k < int n * c)"
    by (simp only: sum_list_map_update [OF n1] old new tot)
  also have "\<dots> = of_bool (0 \<le> k \<and> k < N)"
    using nn lt le by (auto simp: of_bool_def)
  finally show ?thesis by (simp add: initial_wqs_def xs_def F_def)
qed

lemma initial_size:
  assumes n: "1 \<le> n"
  shows "(\<Sum>q\<leftarrow>initial_wqs c N n. wq_last q - wq_next q) = N"
proof -
  define xs where "xs = map (fresh_wq c) [0..<n]"
  define F :: "WorkQueue \<Rightarrow> int" where "F = (\<lambda>q. wq_last q - wq_next q)"
  have n1: "n - 1 < length xs" using n by (simp add: xs_def)
  have e: "int (n - 1) = int n - 1" using n by simp
  have old: "F (xs ! (n - 1)) = c"
    using n n1 by (simp add: xs_def F_def fresh_wq_def e algebra_simps del: One_nat_def)
  have new: "F ((fresh_wq c (n - 1))\<lparr>wq_last := N\<rparr>) = N - (int n - 1) * c"
    by (simp add: F_def fresh_wq_def e del: One_nat_def)
  have tot: "sum_list (map F xs) = int n * c"
    unfolding F_def xs_def by (rule sum_fresh_size)
  have "sum_list (map F (xs[n - 1 := (fresh_wq c (n - 1))\<lparr>wq_last := N\<rparr>])) =
        int n * c + (N - (int n - 1) * c) - c"
    by (simp only: sum_list_map_update [OF n1] old new tot)
  also have "\<dots> = N" by (simp add: algebra_simps)
  finally show ?thesis by (simp add: initial_wqs_def xs_def F_def)
qed

lemma initial_sel [simp]:
  "common (initial_state ags dms sts dt m c n) =
     \<lparr>args = ags, dimensions = dms, steps = sts, data = dt, num_thread = n\<rparr>"
  "workqueues (initial_state ags dms sts dt m c n) = initial_wqs c (dms ! 0) (nat n)"
  "mem (initial_state ags dms sts dt m c n) = m"
  "claimed (initial_state ags dms sts dt m c n) = []"
  "batch_size (initial_state ags dms sts dt m c n) = dms ! 0"
  "length (contexts (initial_state ags dms sts dt m c n)) = nat n"
  "length (frames (initial_state ags dms sts dt m c n)) = nat n"
  by (simp_all add: initial_state_def batch_size_def populate_context_def)

lemma initial_frame_nth:
  "t < nat n \<Longrightarrow> frames (initial_state ags dms sts dt m c n) ! t =
     \<lparr>pc = DrainLock, tid = t, steal_continue = 0, peer = 0, item = 0,
      AMT = 0, last_snap = 0, count = 0, arg_ptrs = [], arg_steps = [], offset = 0\<rparr>"
  by (simp add: initial_state_def populate_context_def entry_frame_def)

lemma initial_context_nth:
  "t < nat n \<Longrightarrow> contexts (initial_state ags dms sts dt m c n) ! t = \<lparr>ctx_id = t, completed = 0\<rparr>"
  by (simp add: initial_state_def populate_context_def)

lemma initial_sums:
  "holders (initial_state ags dms sts dt m c n) j = 0"
  "pcount (initial_state ags dms sts dt m c n) k = 0"
  "(\<Sum>fr\<leftarrow>frames (initial_state ags dms sts dt m c n). inflight fr) = 0"
  "(\<Sum>x\<leftarrow>contexts (initial_state ags dms sts dt m c n). completed x) = 0"
  by (simp_all add: initial_state_def populate_context_def entry_frame_def holds_def
      holders_def pcount_def pending_def inflight_def in_work_def comp_def)

lemma initial_qcount_state:
  assumes c: "1 \<le> c" and n: "1 \<le> n" and le: "n * c \<le> dms ! 0"
  shows "qcount (initial_state ags dms sts dt m c n) k = of_bool (0 \<le> k \<and> k < dms ! 0)"
proof -
  have n1: "1 \<le> nat n" and le': "int (nat n) * c \<le> dms ! 0" using n le by simp_all
  show ?thesis by (simp add: qcount_def initial_qcount [OF c n1 le'])
qed

lemma engine_inv_initial:
  assumes c: "1 \<le> c" and n: "1 \<le> n" and le: "n * c \<le> dms ! 0"
  shows "engine_inv A (initial_state ags dms sts dt m c n)"
proof -
  have n1: "1 \<le> nat n" and le': "int (nat n) * c \<le> dms ! 0" using n le by simp_all
  note B = initial_wqs_bounds [OF c n1 le']
  have "shape (initial_state ags dms sts dt m c n)"
    using n by (simp add: shape_def initial_frame_nth in_steal_check_def)
  moreover have "lock_inv (initial_state ags dms sts dt m c n)"
    by (simp add: lock_inv_def initial_sums initial_frame_nth initial_wqs_nth)
  moreover have "range_inv (initial_state ags dms sts dt m c n)"
    using B(1,2,3) by (simp add: range_inv_def less_imp_le)
  moreover have "frame_inv A (initial_state ags dms sts dt m c n)"
    by (simp add: frame_inv_def frame_ok_def initial_frame_nth in_work_def)
  moreover have "drained_inv (initial_state ags dms sts dt m c n)"
    by (simp add: drained_inv_def left_drain_def initial_frame_nth in_steal_check_def)
  moreover have "part_inv (initial_state ags dms sts dt m c n)"
    by (simp add: part_inv_def lcount_def initial_qcount_state [OF assms])
  moreover have "acct_inv (initial_state ags dms sts dt m c n)"
    by (simp add: acct_inv_def initial_sums initial_size [OF n1])
  moreover have "todo_inv (initial_state ags dms sts dt m c n)"
    by (simp add: todo_inv_def initial_sums initial_qcount_state [OF assms])
  ultimately show ?thesis by (simp add: engine_inv_def)
qed


lemma body_setup_initial:
  assumes "1 \<le> N" "1 \<le> T" "T < 2 ^ 31" "dms ! 0 = N" "chunking N T = (c, n)"
  shows "body_setup T ags dms sts dt m = Inr (initial_state ags dms sts dt m c n)"
  using body_setup_eq [OF assms] assms(4) by (simp add: initial_state_def)

section \<open>Runs\<close>

lemma run_append: "run f A (xs @ ys) s = run f A ys (run f A xs s)"
  by (induction xs arbitrary: s) simp_all

lemma step_keeps:
  assumes "engine_inv A s"
  shows "common (step_thread f A t s) = common s"
    and "batch_size (step_thread f A t s) = batch_size s"
    and "length (frames (step_thread f A t s)) = length (frames s)"
    and "length (contexts (step_thread f A t s)) = length (contexts s)"
    and "length (workqueues (step_thread f A t s)) = length (workqueues s)"
proof -
  have "common (step_thread f A t s) = common s \<and>
        batch_size (step_thread f A t s) = batch_size s \<and>
        length (frames (step_thread f A t s)) = length (frames s) \<and>
        length (contexts (step_thread f A t s)) = length (contexts s) \<and>
        length (workqueues (step_thread f A t s)) = length (workqueues s)"
  proof (cases "enabled s t")
    case False
    then show ?thesis by (simp add: step_not_enabled)
  next
    case True
    from step_cases [OF assms True, of f]
    obtain fr' j q' c' m' l where "step_spec f A s t fr' j q' c' m' l" by blast
    then show ?thesis by (simp add: step_spec_def)
  qed
  then show "common (step_thread f A t s) = common s"
    and "batch_size (step_thread f A t s) = batch_size s"
    and "length (frames (step_thread f A t s)) = length (frames s)"
    and "length (contexts (step_thread f A t s)) = length (contexts s)"
    and "length (workqueues (step_thread f A t s)) = length (workqueues s)"
    by simp_all
qed

lemma run_keeps:
  assumes "engine_inv A s"
  shows "common (run f A sched s) = common s"
    and "batch_size (run f A sched s) = batch_size s"
    and "length (frames (run f A sched s)) = length (frames s)"
    and "length (contexts (run f A sched s)) = length (contexts s)"
    and "length (workqueues (run f A sched s)) = length (workqueues s)"
  using assms
  by (induction sched arbitrary: s) (simp_all add: step_keeps engine_inv_step)



subsection \<open>The measure\<close>

lemma mu_step:
  assumes "engine_inv A s" "enabled s t"
  shows "mu (step_thread f A t s) < mu s"
proof -
  have t: "t < length (frames s)" using assms(2) by (simp add: enabled_def)
  have sh: "shape s" using assms(1) by (simp add: engine_inv_def)
  from step_cases [OF assms, of f]
  obtain fr' j q' c' m' l where sp: "step_spec f A s t fr' j q' c' m' l" by blast
  then have "j < length (frames s)" "local_dec s t fr' j q'"
    and e: "step_thread f A t s = upd t fr' j q' c' m' l s"
    by (simp_all add: step_spec_def)
  from mu_upd [OF sh t this(1,2)] show ?thesis by (simp add: e)
qed

lemma mu_step_le:
  assumes "engine_inv A s"
  shows "mu (step_thread f A t s) \<le> mu s"
  using mu_step [OF assms, of t f] step_not_enabled [of s t f A]
  by (cases "enabled s t") simp_all

lemma mu_run_le:
  assumes "engine_inv A s"
  shows "mu (run f A sched s) \<le> mu s"
  using assms
proof (induction sched arbitrary: s)
  case Nil
  then show ?case by simp
next
  case (Cons t sched)
  have "mu (run f A sched (step_thread f A t s)) \<le> mu (step_thread f A t s)"
    by (rule Cons.IH) (rule engine_inv_step [OF Cons.prems])
  then show ?case using mu_step_le [OF Cons.prems, of f t] by simp
qed

lemma rank_nonneg:
  assumes "engine_inv A s" "t < length (frames s)"
  shows "0 \<le> rank (int (length (frames s))) (frames s ! t)"
proof -
  have sh: "shape s" and fi: "frame_inv A s" using assms(1) by (simp_all add: engine_inv_def)
  have fo: "frame_ok (common s) A (frames s ! t)" using fi assms(2) by (simp add: frame_inv_def)
  have p1: "in_steal_check (pc (frames s ! t)) \<or> pc (frames s ! t) = StealWork \<Longrightarrow>
      int (peer (frames s ! t)) < int (length (frames s))"
    and p2: "pc (frames s ! t) = StealFor \<Longrightarrow> int (peer (frames s ! t)) \<le> int (length (frames s))"
    using sh assms(2) by (auto simp: shape_def)
  show ?thesis
  proof (cases "pc (frames s ! t)")
    case DrainUnlock
    then show ?thesis using fo by (simp add: rank_defs frame_ok_def)
  next
    case DrainWork
    then show ?thesis using fo by (simp add: rank_defs frame_ok_def in_work_def)
  next
    case StealWork
    then show ?thesis using fo p1 by (simp add: rank_defs frame_ok_def in_work_def)
  next
    case StealFor
    then show ?thesis using p2 by (simp add: rank_defs)
  qed (use p1 in \<open>simp_all add: rank_defs in_steal_check_def\<close>)
qed

lemma mu_nonneg:
  assumes "engine_inv A s"
  shows "0 \<le> mu s"
proof -
  have ri: "range_inv s" using assms by (simp add: engine_inv_def)
  have "0 \<le> (\<Sum>q\<leftarrow>workqueues s. (int (length (frames s)) + 5) * (wq_last q - wq_next q))"
  proof (rule sum_list_nonneg)
    fix x assume "x \<in> set (map (\<lambda>q. (int (length (frames s)) + 5) * (wq_last q - wq_next q))
        (workqueues s))"
    then obtain j where "j < length (workqueues s)"
      "x = (int (length (frames s)) + 5) * (wq_last (workqueues s ! j) - wq_next (workqueues s ! j))"
      by (auto simp: in_set_conv_nth)
    then show "0 \<le> x" using ri by (simp add: range_inv_def)
  qed
  moreover have "0 \<le> (\<Sum>fr\<leftarrow>frames s. rank (int (length (frames s))) fr)"
  proof (rule sum_list_nonneg)
    fix x assume "x \<in> set (map (rank (int (length (frames s)))) (frames s))"
    then obtain t where "t < length (frames s)" "x = rank (int (length (frames s))) (frames s ! t)"
      by (auto simp: in_set_conv_nth)
    then show "0 \<le> x" using rank_nonneg [OF assms] by simp
  qed
  ultimately show ?thesis by (simp add: mu_def)
qed

section \<open>The state at the join\<close>

lemma sum_list_all_zero:
  fixes F :: "'a \<Rightarrow> int"
  shows "(\<And>x. x \<in> set xs \<Longrightarrow> F x = 0) \<Longrightarrow> sum_list (map F xs) = 0"
  by (induction xs) simp_all

lemma fold_add_sum_list:
  fixes F :: "'a \<Rightarrow> int"
  shows "fold (\<lambda>c acc. acc + F c) xs a = a + sum_list (map F xs)"
  by (induction xs arbitrary: a) simp_all

lemma returned_queue_empty:
  assumes "engine_inv A s" "all_returned s" "q \<in> set (workqueues s)"
  shows "wq_next q = wq_last q"
proof -
  have sh: "shape s" and di: "drained_inv s" using assms(1) by (simp_all add: engine_inv_def)
  obtain j where j: "j < length (workqueues s)" "q = workqueues s ! j"
    using assms(3) by (auto simp: in_set_conv_nth)
  then have jf: "j < length (frames s)" using sh by (simp add: shape_def)
  then have "pc (frames s ! j) = Ret" using assms(2) by (simp add: all_returned_def)
  then have "left_drain (frames s ! j)" by (simp add: left_drain_def)
  then show ?thesis using di jf j by (simp add: drained_inv_def)
qed

lemma returned_counts:
  assumes "engine_inv A s" "all_returned s"
  shows "qcount s k = 0" "pcount s k = 0" "(\<Sum>fr\<leftarrow>frames s. inflight fr) = 0"
    "(\<Sum>q\<leftarrow>workqueues s. wq_last q - wq_next q) = 0"
proof -
  show "qcount s k = 0"
    unfolding qcount_def
    by (rule sum_list_all_zero) (use returned_queue_empty [OF assms] in \<open>simp add: wq_range_def\<close>)
  show "pcount s k = 0"
    unfolding pcount_def
    by (rule sum_list_all_zero)
      (use assms(2) in \<open>simp add: all_returned_def pending_def in_work_def\<close>)
  show "(\<Sum>fr\<leftarrow>frames s. inflight fr) = 0"
    by (rule sum_list_all_zero) (use assms(2) in \<open>simp add: all_returned_def inflight_def\<close>)
  show "(\<Sum>q\<leftarrow>workqueues s. wq_last q - wq_next q) = 0"
    by (rule sum_list_all_zero) (use returned_queue_empty [OF assms] in simp)
qed

lemma returned_accounting:
  assumes "engine_inv A s" "all_returned s"
  shows "(\<Sum>c\<leftarrow>contexts s. completed c) = batch_size s" "audit s = Inr ()"
proof -
  have "acct_inv s" using assms(1) by (simp add: engine_inv_def)
  then show *: "(\<Sum>c\<leftarrow>contexts s. completed c) = batch_size s"
    using returned_counts(3,4) [OF assms] by (simp add: acct_inv_def)
  then show "audit s = Inr ()"
    by (simp add: audit_def fold_add_sum_list batch_size_def)
qed

lemma returned_partition:
  assumes "engine_inv A s" "all_returned s"
  shows "length (filter (covers k) (claimed s)) = (if 0 \<le> k \<and> k < batch_size s then 1 else 0)"
proof -
  have "part_inv s" using assms(1) by (simp add: engine_inv_def)
  then have "qcount s k + lcount s k = of_bool (0 \<le> k \<and> k < batch_size s)"
    by (simp add: part_inv_def)
  then show ?thesis using returned_counts(1) [OF assms, of k]
    by (simp add: lcount_def of_bool_def split: if_splits)
qed



lemma body_returns:
  assumes "1 \<le> N" "1 \<le> T" "T < 2 ^ 31" "dms ! 0 = N" "chunking N T = (c, n)"
    and "all_returned (run f A sched (initial_state ags dms sts dt m c n))"
  shows "body f A sched T ags dms sts dt m =
           Some (Inr (run f A sched (initial_state ags dms sts dt m c n)))"
proof -
  let ?ini = "initial_state ags dms sts dt m c n :: 'a state"
  note b = chunking_bounds [OF assms(1-3,5)]
  have i0: "engine_inv A ?ini"
    by (rule engine_inv_initial) (use b assms(4) in simp_all)
  have inv: "engine_inv A (run f A sched ?ini)" by (rule engine_inv_run [OF i0])
  have su: "body_setup T ags dms sts dt m = Inr ?ini"
    by (rule body_setup_initial [OF assms(1-5)])
  show ?thesis
    using assms(6) returned_accounting(2) [OF inv assms(6)]
    unfolding body_def su by (simp add: Let_def)
qed


section \<open>Termination\<close>


lemma returned_stays:
  assumes "all_returned s"
  shows "run f A sched s = s"
proof -
  have "\<not> enabled s t" for t
    using assms by (auto simp: enabled_def all_returned_def)
  then have "step_thread f A t s = s" for t by (rule step_not_enabled)
  then show ?thesis by (induction sched) simp_all
qed

lemma sum_list_of_bool_pos:
  assumes "(\<Sum>x\<leftarrow>xs. of_bool (P x)) \<noteq> (0::int)"
  shows "\<exists>i < length xs. P (xs ! i)"
proof (rule ccontr)
  assume "\<not> (\<exists>i < length xs. P (xs ! i))"
  then have "\<And>x. x \<in> set xs \<Longrightarrow> (of_bool (P x) :: int) = 0"
    by (auto simp: in_set_conv_nth)
  then have "(\<Sum>x\<leftarrow>xs. of_bool (P x)) = (0::int)" by (rule sum_list_all_zero)
  then show False using assms by simp
qed

lemma no_deadlock:
  assumes inv: "engine_inv A s" and nr: "\<not> all_returned s"
  shows "\<exists>t. enabled s t"
proof -
  have sh: "shape s" and li: "lock_inv s" using inv by (simp_all add: engine_inv_def)
  obtain t where t: "t < length (frames s)" "pc (frames s ! t) \<noteq> Ret"
    using nr by (auto simp: all_returned_def in_set_conv_nth)
  have nt: "pc (frames s ! t) \<noteq> Trap" using li t by (simp add: lock_inv_def)
  have holder: "\<exists>t'. enabled s t'" if j: "j < length (frames s)"
    and busy: "wq_lock (workqueues s ! j) \<noteq> 0" for j
  proof -
    have "holders s j \<noteq> 0" using li sh j busy by (simp add: lock_inv_def shape_def)
    then obtain t' where t': "t' < length (frames s)" "holds (frames s ! t') j"
      unfolding holders_def using sum_list_of_bool_pos [of "\<lambda>fr. holds fr j" "frames s"] by auto
    then have "enabled s t'" by (auto simp: enabled_def holds_def)
    then show ?thesis ..
  qed
  show ?thesis
  proof (cases "enabled s t")
    case True
    then show ?thesis ..
  next
    case False
    then consider "pc (frames s ! t) = DrainLock" "wq_lock (workqueues s ! tid (frames s ! t)) \<noteq> 0"
      | "pc (frames s ! t) = StealLock" "wq_lock (workqueues s ! peer (frames s ! t)) \<noteq> 0"
      using t nt by (auto simp: enabled_def)
    then show ?thesis
    proof cases
      case 1
      have "tid (frames s ! t) < length (frames s)" using sh t by (simp add: shape_def)
      then show ?thesis using holder 1 by blast
    next
      case 2
      have "peer (frames s ! t) < length (frames s)"
        using sh t 2 by (simp add: shape_def in_steal_check_def)
      then show ?thesis using holder 2 by blast
    qed
  qed
qed

lemma round_progress:
  assumes "engine_inv A s" "enabled s t" "t \<in> set r"
  shows "mu (run f A r s) < mu s"
  using assms
proof (induction r arbitrary: s)
  case Nil
  then show ?case by simp
next
  case (Cons t' r)
  show ?case
  proof (cases "enabled s t'")
    case True
    have "mu (run f A r (step_thread f A t' s)) \<le> mu (step_thread f A t' s)"
      by (rule mu_run_le) (rule engine_inv_step [OF Cons.prems(1)])
    then show ?thesis using mu_step [OF Cons.prems(1) True, of f] by simp
  next
    case False
    then have "t \<noteq> t'" using Cons.prems(2) by auto
    then have "t \<in> set r" using Cons.prems(3) by simp
    then show ?thesis
      using Cons.IH [OF Cons.prems(1,2)] False by (simp add: step_not_enabled)
  qed
qed

lemma fair_round:
  assumes "engine_inv A s" "\<forall>t < length (frames s). t \<in> set r"
  shows "all_returned (run f A r s) \<or> mu (run f A r s) < mu s"
proof (cases "all_returned s")
  case True
  then show ?thesis by (simp add: returned_stays)
next
  case False
  then obtain t where t: "enabled s t" using no_deadlock [OF assms(1)] by blast
  then have "t \<in> set r" using assms(2) by (simp add: enabled_def)
  then show ?thesis using round_progress [OF assms(1) t] by blast
qed

lemma fair_rounds_progress:
  assumes "engine_inv A s" "fair_rounds (length (frames s)) rounds"
  shows "all_returned (run f A (concat rounds) s) \<or>
         mu (run f A (concat rounds) s) + int (length rounds) \<le> mu s"
  using assms
proof (induction rounds arbitrary: s)
  case Nil
  then show ?case by simp
next
  case (Cons r rounds)
  let ?s1 = "run f A r s"
  have i1: "engine_inv A ?s1" by (rule engine_inv_run [OF Cons.prems(1)])
  have l1: "length (frames ?s1) = length (frames s)" by (rule run_keeps(3) [OF Cons.prems(1)])
  have fr: "\<forall>t < length (frames s). t \<in> set r" and frs: "fair_rounds (length (frames ?s1)) rounds"
    using Cons.prems(2) l1 by (simp_all add: fair_rounds_def)
  have e: "run f A (concat (r # rounds)) s = run f A (concat rounds) ?s1"
    by (simp add: run_append)
  from fair_round [OF Cons.prems(1) fr, of f]
  show ?case
  proof
    assume "all_returned ?s1"
    then show ?thesis unfolding e by (simp add: returned_stays)
  next
    assume lt: "mu ?s1 < mu s"
    from Cons.IH [OF i1 frs] show ?thesis
      unfolding e using lt by auto
  qed
qed

lemma fair_terminates:
  assumes "engine_inv A s" "fair_rounds (length (frames s)) rounds" "mu s < int (length rounds)"
  shows "all_returned (run f A (concat rounds) s)"
proof -
  have "0 \<le> mu (run f A (concat rounds) s)"
    by (rule mu_nonneg) (rule engine_inv_run [OF assms(1)])
  then show ?thesis using fair_rounds_progress [OF assms(1,2), of f] assms(3) by linarith
qed

lemma mu_initial:
  assumes "1 \<le> n"
  shows "mu (initial_state ags dms sts dt m c n) = (n + 5) * (dms ! 0) + n * (4 * n + 6)"
proof -
  have n1: "1 \<le> nat n" using assms by simp
  have "(\<Sum>q\<leftarrow>initial_wqs c (dms ! 0) (nat n). (n + 5) * (wq_last q - wq_next q)) =
        (n + 5) * (\<Sum>q\<leftarrow>initial_wqs c (dms ! 0) (nat n). wq_last q - wq_next q)"
    by (simp add: sum_list_const_mult)
  also have "\<dots> = (n + 5) * (dms ! 0)" by (simp add: initial_size [OF n1])
  finally have q: "(\<Sum>q\<leftarrow>initial_wqs c (dms ! 0) (nat n). (n + 5) * (wq_last q - wq_next q)) =
        (n + 5) * (dms ! 0)" .
  have "(\<Sum>fr\<leftarrow>frames (initial_state ags dms sts dt m c n). rank n fr) =
        (\<Sum>fr\<leftarrow>frames (initial_state ags dms sts dt m c n). 4 * n + 6)"
    by (rule arg_cong [where f = sum_list], rule map_cong [OF refl])
      (auto simp: in_set_conv_nth initial_frame_nth rank_def)
  also have "\<dots> = n * (4 * n + 6)" using assms by (simp add: sum_list_triv)
  finally have r: "(\<Sum>fr\<leftarrow>frames (initial_state ags dms sts dt m c n). rank n fr) =
      n * (4 * n + 6)" .
  show ?thesis using assms q r by (simp add: mu_def)
qed

section \<open>Exactness, partition and accounting\<close>











section \<open>Properties of the reachable states and of single steps\<close>

lemma reach_inv:
  assumes "1 \<le> N" "1 \<le> T" "T < 2 ^ 31" "dms ! 0 = N"
    and "body_setup T ags dms sts dt m = Inr s0"
  shows "engine_inv A (run f A sched s0)"
    and "batch_size (run f A sched s0) = N"
    and "length (frames (run f A sched s0)) = nat (num_thread (common s0))"
    and "length (workqueues (run f A sched s0)) = nat (num_thread (common s0))"
    and "length (contexts (run f A sched s0)) = nat (num_thread (common s0))"
    and "1 \<le> num_thread (common s0)" and "num_thread (common s0) \<le> T"
    and "common (run f A sched s0) = common s0"
proof -
  obtain c n where cn: "chunking N T = (c, n)" by (cases "chunking N T")
  note b = chunking_bounds [OF assms(1-3) cn]
  have e: "s0 = initial_state ags dms sts dt m c n"
    using body_setup_initial [OF assms(1-4) cn, of ags sts dt m] assms(5) by simp
  have i0: "engine_inv A s0"
    unfolding e by (rule engine_inv_initial) (use b assms(4) in simp_all)
  show "engine_inv A (run f A sched s0)" by (rule engine_inv_run [OF i0])
  show "batch_size (run f A sched s0) = N"
    unfolding run_keeps(2) [OF i0] using assms(4) by (simp add: e)
  show "length (frames (run f A sched s0)) = nat (num_thread (common s0))"
    unfolding run_keeps(3) [OF i0] by (simp add: e)
  show "length (workqueues (run f A sched s0)) = nat (num_thread (common s0))"
    unfolding run_keeps(5) [OF i0] by (simp add: e)
  show "length (contexts (run f A sched s0)) = nat (num_thread (common s0))"
    unfolding run_keeps(4) [OF i0] by (simp add: e)
  show "1 \<le> num_thread (common s0)" "num_thread (common s0) \<le> T"
    using b by (simp_all add: e)
  show "common (run f A sched s0) = common s0" by (rule run_keeps(1) [OF i0])
qed

text \<open>What one step of any thread does to the range of queue \<open>j\<close>.\<close>

lemma step_queue:
  assumes inv: "engine_inv A s" and j: "j < length (frames s)"
  shows "(wq_next (workqueues (step_thread f A t s) ! j) = wq_next (workqueues s ! j) \<and>
          wq_last (workqueues (step_thread f A t s) ! j) = wq_last (workqueues s ! j)) \<or>
         (t = j \<and> pc (frames s ! t) = DrainCrit \<and>
          wq_next (workqueues (step_thread f A t s) ! j) =
            wq_next (workqueues s ! j) +
            min GRANULARITY (wq_last (workqueues s ! j) - wq_next (workqueues s ! j)) \<and>
          wq_last (workqueues (step_thread f A t s) ! j) = wq_last (workqueues s ! j)) \<or>
         (t \<noteq> j \<and> t < length (frames s) \<and> pc (frames s ! t) = StealCrit \<and>
          peer (frames s ! t) = j \<and>
          wq_next (workqueues s ! j) \<le> wq_last (workqueues s ! j) - GRANULARITY \<and>
          wq_next (workqueues (step_thread f A t s) ! j) = wq_next (workqueues s ! j) \<and>
          wq_last (workqueues (step_thread f A t s) ! j) =
            wq_last (workqueues s ! j) - GRANULARITY)"
proof (cases "enabled s t")
  case False
  then show ?thesis by (simp add: step_not_enabled)
next
  case True
  then have t: "t < length (frames s)" by (simp add: enabled_def)
  have len: "length (workqueues s) = length (frames s)"
    using inv by (simp add: engine_inv_def shape_def)
  from step_cases [OF inv True, of f]
  obtain fr' j0 q' c' m' l where sp: "step_spec f A s t fr' j0 q' c' m' l" by blast
  then have e: "step_thread f A t s = upd t fr' j0 q' c' m' l s"
    and lf: "local_frame s t fr' j0 q' c'" and j0: "j0 < length (frames s)"
    by (simp_all add: step_spec_def)
  show ?thesis
  proof (cases "j = j0")
    case False
    then show ?thesis using j len by (simp add: e nth_upd)
  next
    case eq: True
    have w: "workqueues (step_thread f A t s) ! j = q'"
      using j len eq by (simp add: e)
    consider "pc (frames s ! t) = DrainCrit" | "pc (frames s ! t) = StealCrit"
      | "pc (frames s ! t) \<noteq> DrainCrit" "pc (frames s ! t) \<noteq> StealCrit" by blast
    then show ?thesis
    proof cases
      case 1
      then show ?thesis using lf eq t unfolding w
        by (simp add: local_frame_def in_drain_check_def in_steal_check_def)
    next
      case 2
      then show ?thesis using lf eq t unfolding w
        by (auto simp: local_frame_def in_drain_check_def in_steal_check_def)
    next
      case 3
      then show ?thesis using lf eq unfolding w
        by (simp add: local_frame_def)
    qed
  qed
qed

lemma step_queue_mono:
  assumes "engine_inv A s" "j < length (frames s)"
  shows "wq_next (workqueues s ! j) \<le> wq_next (workqueues (step_thread f A t s) ! j)"
    and "wq_last (workqueues (step_thread f A t s) ! j) \<le> wq_last (workqueues s ! j)"
proof -
  have r: "wq_next (workqueues s ! j) \<le> wq_last (workqueues s ! j)"
    using assms by (simp add: engine_inv_def range_inv_def shape_def)
  from step_queue [OF assms, of f t] r
  show "wq_next (workqueues s ! j) \<le> wq_next (workqueues (step_thread f A t s) ! j)"
    and "wq_last (workqueues (step_thread f A t s) ! j) \<le> wq_last (workqueues s ! j)"
    by (auto simp: GRANULARITY_def)
qed

lemma run_queue_mono:
  assumes "engine_inv A s" "j < length (frames s)"
  shows "wq_next (workqueues s ! j) \<le> wq_next (workqueues (run f A sched s) ! j) \<and>
         wq_last (workqueues (run f A sched s) ! j) \<le> wq_last (workqueues s ! j)"
  using assms
proof (induction sched arbitrary: s)
  case Nil
  then show ?case by simp
next
  case (Cons t sched)
  have i1: "engine_inv A (step_thread f A t s)" by (rule engine_inv_step [OF Cons.prems(1)])
  have j1: "j < length (frames (step_thread f A t s))"
    using Cons.prems(2) step_keeps(3) [OF Cons.prems(1)] by simp
  from Cons.IH [OF i1 j1] step_queue_mono [OF Cons.prems, of f t]
  show ?case by simp
qed

text \<open>
  Claim C3. In every state the threads of a batch of \<open>N \<ge> 1\<close> elements reach, every queue
  has \<open>0 \<le> next \<le> last \<le> N\<close>; along every continuation \<open>next\<close> does not decrease and
  \<open>last\<close> does not increase; and a single step either leaves the two words of a queue as
  they are, or is the owner's pop \<open>next += min(256, last - next)\<close>, or is a steal
  \<open>last -= 256\<close> by another thread, made only when \<open>next \<le> last - 256\<close>.
\<close>

theorem queue_interval_monotone:
  assumes "1 \<le> N" and "1 \<le> T" and "T < 2 ^ 31" and "dms ! 0 = N"
    and "body_setup T ags dms sts dt m = Inr s0"
    and "s = run f A sched s0" and "j < length (workqueues s0)"
  shows "0 \<le> wq_next (workqueues s ! j) \<and>
         wq_next (workqueues s ! j) \<le> wq_last (workqueues s ! j) \<and>
         wq_last (workqueues s ! j) \<le> N \<and>
         wq_next (workqueues s ! j) \<le> wq_next (workqueues (run f A sched' s) ! j) \<and>
         wq_last (workqueues (run f A sched' s) ! j) \<le> wq_last (workqueues s ! j) \<and>
         ((wq_next (workqueues (step_thread f A t s) ! j) = wq_next (workqueues s ! j) \<and>
           wq_last (workqueues (step_thread f A t s) ! j) = wq_last (workqueues s ! j)) \<or>
          (t = j \<and> pc (frames s ! t) = DrainCrit \<and>
           wq_next (workqueues (step_thread f A t s) ! j) =
             wq_next (workqueues s ! j) +
             min GRANULARITY (wq_last (workqueues s ! j) - wq_next (workqueues s ! j)) \<and>
           wq_last (workqueues (step_thread f A t s) ! j) = wq_last (workqueues s ! j)) \<or>
          (t \<noteq> j \<and> t < length (frames s) \<and> pc (frames s ! t) = StealCrit \<and>
           peer (frames s ! t) = j \<and>
           wq_next (workqueues s ! j) \<le> wq_last (workqueues s ! j) - GRANULARITY \<and>
           wq_next (workqueues (step_thread f A t s) ! j) = wq_next (workqueues s ! j) \<and>
           wq_last (workqueues (step_thread f A t s) ! j) =
             wq_last (workqueues s ! j) - GRANULARITY))"
proof -
  note ri = reach_inv [OF assms(1-5)]
  have inv: "engine_inv A s" unfolding assms(6) by (rule ri(1))
  have bs: "batch_size s = N" unfolding assms(6) by (rule ri(2))
  have "length (workqueues s0) = nat (num_thread (common s0))"
    using ri(4) [of f A "[]"] by simp
  then have jf: "j < length (frames s)" and jw: "j < length (workqueues s)"
    using assms(7) ri(3,4) [of f A sched] by (simp_all add: assms(6))
  have "range_inv s" using inv by (simp add: engine_inv_def)
  then have r: "0 \<le> wq_next (workqueues s ! j)"
    "wq_next (workqueues s ! j) \<le> wq_last (workqueues s ! j)"
    "wq_last (workqueues s ! j) \<le> N"
    using jw bs by (simp_all add: range_inv_def)
  from r run_queue_mono [OF inv jf, of f sched'] step_queue [OF inv jf, of f t]
  show ?thesis by (intro conjI) simp_all
qed

theorem queue_interval_monotone_witness:
  "\<exists>s0. body_setup 1 [0, 100] [1] [8, 8] 0 mem0 = Inr s0 \<and>
     wq_next (workqueues (run incr 1 [0, 0] s0) ! 0) \<le> wq_last (workqueues (run incr 1 [0, 0] s0) ! 0) \<and>
     wq_last (workqueues (run incr 1 [0, 0] s0) ! 0) \<le> 1 \<and>
     wq_next (workqueues (run incr 1 [0, 0] s0) ! 0)
       \<le> wq_next (workqueues (run incr 1 [0] (run incr 1 [0, 0] s0)) ! 0)"
proof -
  have h: "(1::int) \<le> 1" "(1::int) < 2 ^ 31" "[1::int] ! 0 = 1" by simp_all
  have cn: "chunking 1 1 = (1, 1)" by (simp add: chunking_def)
  define s0 :: "int state" where "s0 = initial_state [0, 100] [1] [8, 8] 0 mem0 1 1"
  have su: "body_setup 1 [0, 100] [1] [8, 8] 0 mem0 = Inr s0"
    unfolding s0_def by (rule body_setup_initial [OF h(1) h(1) h(2) h(3) cn])
  have j: "0 < length (workqueues s0)" by (simp add: s0_def)
  from queue_interval_monotone [OF h(1) h(1) h(2) h(3) su refl j,
      where f = incr and A = 1 and sched = "[0, 0]" and sched' = "[0]" and t = 0]
  have "wq_next (workqueues (run incr 1 [0, 0] s0) ! 0) \<le> wq_last (workqueues (run incr 1 [0, 0] s0) ! 0)"
    and "wq_last (workqueues (run incr 1 [0, 0] s0) ! 0) \<le> 1"
    and "wq_next (workqueues (run incr 1 [0, 0] s0) ! 0)
       \<le> wq_next (workqueues (run incr 1 [0] (run incr 1 [0, 0] s0)) ! 0)"
    by simp_all
  with su show ?thesis by (intro exI [of _ s0] conjI)
qed

text \<open>What one step of thread \<open>t\<close> leaves alone.\<close>

lemma step_frame:
  assumes inv: "engine_inv A s"
  shows "common (step_thread f A t s) = common s"
    and "t' \<noteq> t \<Longrightarrow> contexts (step_thread f A t s) ! t' = contexts s ! t'"
    and "t' \<noteq> t \<Longrightarrow> frames (step_thread f A t s) ! t' = frames s ! t'"
    and "ctx_id (contexts (step_thread f A t s) ! t) = ctx_id (contexts s ! t)"
    and "in_drain_check (pc (frames s ! t)) \<Longrightarrow> j \<noteq> t \<Longrightarrow>
           workqueues (step_thread f A t s) ! j = workqueues s ! j"
    and "in_drain_check (pc (frames s ! t)) \<Longrightarrow>
           wq_last (workqueues (step_thread f A t s) ! t) = wq_last (workqueues s ! t)"
    and "in_steal_check (pc (frames s ! t)) \<Longrightarrow> j \<noteq> peer (frames s ! t) \<Longrightarrow>
           workqueues (step_thread f A t s) ! j = workqueues s ! j"
    and "in_steal_check (pc (frames s ! t)) \<Longrightarrow>
           wq_next (workqueues (step_thread f A t s) ! peer (frames s ! t)) =
           wq_next (workqueues s ! peer (frames s ! t))"
    and "\<not> in_drain_check (pc (frames s ! t)) \<Longrightarrow> \<not> in_steal_check (pc (frames s ! t)) \<Longrightarrow>
           workqueues (step_thread f A t s) = workqueues s"
proof -
  have "common (step_thread f A t s) = common s \<and>
    (t' \<noteq> t \<longrightarrow> contexts (step_thread f A t s) ! t' = contexts s ! t') \<and>
    (t' \<noteq> t \<longrightarrow> frames (step_thread f A t s) ! t' = frames s ! t') \<and>
    ctx_id (contexts (step_thread f A t s) ! t) = ctx_id (contexts s ! t) \<and>
    (in_drain_check (pc (frames s ! t)) \<longrightarrow> j \<noteq> t \<longrightarrow>
           workqueues (step_thread f A t s) ! j = workqueues s ! j) \<and>
    (in_drain_check (pc (frames s ! t)) \<longrightarrow>
           wq_last (workqueues (step_thread f A t s) ! t) = wq_last (workqueues s ! t)) \<and>
    (in_steal_check (pc (frames s ! t)) \<longrightarrow> j \<noteq> peer (frames s ! t) \<longrightarrow>
           workqueues (step_thread f A t s) ! j = workqueues s ! j) \<and>
    (in_steal_check (pc (frames s ! t)) \<longrightarrow>
           wq_next (workqueues (step_thread f A t s) ! peer (frames s ! t)) =
           wq_next (workqueues s ! peer (frames s ! t))) \<and>
    (\<not> in_drain_check (pc (frames s ! t)) \<longrightarrow> \<not> in_steal_check (pc (frames s ! t)) \<longrightarrow>
           workqueues (step_thread f A t s) = workqueues s)"
  proof (cases "enabled s t")
    case False
    then show ?thesis by (simp add: step_not_enabled)
  next
    case True
    then have t: "t < length (frames s)" by (simp add: enabled_def)
    have len: "length (workqueues s) = length (frames s)" "length (contexts s) = length (frames s)"
      using inv by (simp_all add: engine_inv_def shape_def)
    from step_cases [OF inv True, of f]
    obtain fr' j0 q' c' m' l where sp: "step_spec f A s t fr' j0 q' c' m' l" by blast
    then have e: "step_thread f A t s = upd t fr' j0 q' c' m' l s"
      and lf: "local_frame s t fr' j0 q' c'" and j0: "j0 < length (frames s)"
      by (simp_all add: step_spec_def)
    have c: "ctx_id c' = ctx_id (contexts s ! t)" using lf by (simp add: local_frame_def)
    have d: "in_drain_check (pc (frames s ! t)) \<Longrightarrow> j0 = t \<and> wq_last q' = wq_last (workqueues s ! t)"
      using lf by (auto simp: local_frame_def)
    have st: "in_steal_check (pc (frames s ! t)) \<Longrightarrow>
        j0 = peer (frames s ! t) \<and> wq_next q' = wq_next (workqueues s ! j0)"
      using lf by (auto simp: local_frame_def)
    have o: "\<not> in_drain_check (pc (frames s ! t)) \<Longrightarrow> \<not> in_steal_check (pc (frames s ! t)) \<Longrightarrow>
        q' = workqueues s ! j0"
      using lf by (auto simp: local_frame_def)
    show ?thesis
      unfolding e using t len j0 c d st o
      by (auto simp: nth_upd)
  qed
  then show "common (step_thread f A t s) = common s"
    and "t' \<noteq> t \<Longrightarrow> contexts (step_thread f A t s) ! t' = contexts s ! t'"
    and "t' \<noteq> t \<Longrightarrow> frames (step_thread f A t s) ! t' = frames s ! t'"
    and "ctx_id (contexts (step_thread f A t s) ! t) = ctx_id (contexts s ! t)"
    and "in_drain_check (pc (frames s ! t)) \<Longrightarrow> j \<noteq> t \<Longrightarrow>
           workqueues (step_thread f A t s) ! j = workqueues s ! j"
    and "in_drain_check (pc (frames s ! t)) \<Longrightarrow>
           wq_last (workqueues (step_thread f A t s) ! t) = wq_last (workqueues s ! t)"
    and "in_steal_check (pc (frames s ! t)) \<Longrightarrow> j \<noteq> peer (frames s ! t) \<Longrightarrow>
           workqueues (step_thread f A t s) ! j = workqueues s ! j"
    and "in_steal_check (pc (frames s ! t)) \<Longrightarrow>
           wq_next (workqueues (step_thread f A t s) ! peer (frames s ! t)) =
           wq_next (workqueues s ! peer (frames s ! t))"
    and "\<not> in_drain_check (pc (frames s ! t)) \<Longrightarrow> \<not> in_steal_check (pc (frames s ! t)) \<Longrightarrow>
           workqueues (step_thread f A t s) = workqueues s"
    by blast+
qed

text \<open>
  Claim C10. In every state the threads of a batch of \<open>N \<ge> 1\<close> elements reach, a step of
  thread \<open>t\<close> leaves the shared context, every other thread's context and locals, and the
  \<open>id\<close> of its own context as they are. While the thread is in the lock, critical section or
  unlock of its local drain, the step leaves every other queue and the \<open>last\<close> of its own
  queue as they are; while it is in the lock, critical section or unlock of a steal-check, it
  leaves every queue but the peer's and the peer's \<open>next\<close> as they are, and the peer is not
  the thread itself; anywhere else it leaves all queues as they are.
\<close>

theorem worker_steps_frame:
  assumes "1 \<le> N" and "1 \<le> T" and "T < 2 ^ 31" and "dms ! 0 = N"
    and "body_setup T ags dms sts dt m = Inr s0"
    and "s = run f A sched s0" and "s' = step_thread f A t s"
  shows "common s' = common s \<and>
         (\<forall>t'. t' \<noteq> t \<longrightarrow> contexts s' ! t' = contexts s ! t' \<and> frames s' ! t' = frames s ! t') \<and>
         ctx_id (contexts s' ! t) = ctx_id (contexts s ! t) \<and>
         (pc (frames s ! t) \<in> {DrainLock, DrainCrit, DrainUnlock} \<longrightarrow>
            (\<forall>j. j \<noteq> t \<longrightarrow> workqueues s' ! j = workqueues s ! j) \<and>
            wq_last (workqueues s' ! t) = wq_last (workqueues s ! t)) \<and>
         (pc (frames s ! t) \<in> {StealLock, StealCrit, StealUnlockT, StealUnlockF} \<longrightarrow>
            (\<forall>j. j \<noteq> peer (frames s ! t) \<longrightarrow> workqueues s' ! j = workqueues s ! j) \<and>
            wq_next (workqueues s' ! peer (frames s ! t)) =
              wq_next (workqueues s ! peer (frames s ! t)) \<and>
            (t < length (frames s) \<longrightarrow> peer (frames s ! t) \<noteq> t)) \<and>
         (pc (frames s ! t) \<in> {DrainWork, StealCond, StealFor, StealWork, Ret, Trap} \<longrightarrow>
            workqueues s' = workqueues s)"
proof -
  have inv: "engine_inv A s" unfolding assms(6) by (rule reach_inv(1) [OF assms(1-5)])
  note sf = step_frame [OF inv]
  have pr: "peer (frames s ! t) \<noteq> t"
    if "pc (frames s ! t) \<in> {StealLock, StealCrit, StealUnlockT, StealUnlockF}"
      "t < length (frames s)"
    using inv that by (auto simp: engine_inv_def shape_def in_steal_check_def)
  show ?thesis
    unfolding assms(7)
  proof (intro conjI allI impI)
    show "common (step_thread f A t s) = common s" by (rule sf(1))
    show "ctx_id (contexts (step_thread f A t s) ! t) = ctx_id (contexts s ! t)" by (rule sf(4))
  next
    fix t' assume "t' \<noteq> t"
    then show "contexts (step_thread f A t s) ! t' = contexts s ! t'"
      "frames (step_thread f A t s) ! t' = frames s ! t'"
      by (rule sf(2), rule sf(3))
  next
    fix j assume "pc (frames s ! t) \<in> {DrainLock, DrainCrit, DrainUnlock}" "j \<noteq> t"
    then show "workqueues (step_thread f A t s) ! j = workqueues s ! j"
      by (intro sf(5)) (auto simp: in_drain_check_def)
  next
    assume "pc (frames s ! t) \<in> {DrainLock, DrainCrit, DrainUnlock}"
    then show "wq_last (workqueues (step_thread f A t s) ! t) = wq_last (workqueues s ! t)"
      by (intro sf(6)) (auto simp: in_drain_check_def)
  next
    fix j assume "pc (frames s ! t) \<in> {StealLock, StealCrit, StealUnlockT, StealUnlockF}"
      "j \<noteq> peer (frames s ! t)"
    then show "workqueues (step_thread f A t s) ! j = workqueues s ! j"
      by (intro sf(7)) (auto simp: in_steal_check_def)
  next
    assume "pc (frames s ! t) \<in> {StealLock, StealCrit, StealUnlockT, StealUnlockF}"
    then show "wq_next (workqueues (step_thread f A t s) ! peer (frames s ! t)) =
              wq_next (workqueues s ! peer (frames s ! t))"
      by (intro sf(8)) (auto simp: in_steal_check_def)
  next
    assume "pc (frames s ! t) \<in> {StealLock, StealCrit, StealUnlockT, StealUnlockF}"
      "t < length (frames s)"
    then show "peer (frames s ! t) \<noteq> t" by (rule pr)
  next
    assume "pc (frames s ! t) \<in> {DrainWork, StealCond, StealFor, StealWork, Ret, Trap}"
    then show "workqueues (step_thread f A t s) = workqueues s"
      by (intro sf(9)) (auto simp: in_drain_check_def in_steal_check_def)
  qed
qed

theorem worker_steps_frame_witness:
  "\<exists>s0. body_setup 1 [0, 100] [1] [8, 8] 0 mem0 = Inr s0 \<and>
     common (step_thread incr 1 0 (run incr 1 [0] s0)) = common (run incr 1 [0] s0) \<and>
     ctx_id (contexts (step_thread incr 1 0 (run incr 1 [0] s0)) ! 0) =
       ctx_id (contexts (run incr 1 [0] s0) ! 0)"
proof -
  have h: "(1::int) \<le> 1" "(1::int) < 2 ^ 31" "[1::int] ! 0 = 1" by simp_all
  have cn: "chunking 1 1 = (1, 1)" by (simp add: chunking_def)
  define s0 :: "int state" where "s0 = initial_state [0, 100] [1] [8, 8] 0 mem0 1 1"
  have su: "body_setup 1 [0, 100] [1] [8, 8] 0 mem0 = Inr s0"
    unfolding s0_def by (rule body_setup_initial [OF h(1) h(1) h(2) h(3) cn])
  from worker_steps_frame [OF h(1) h(1) h(2) h(3) su refl refl,
      where f = incr and A = 1 and sched = "[0]" and t = 0]
  have "common (step_thread incr 1 0 (run incr 1 [0] s0)) = common (run incr 1 [0] s0)"
    and "ctx_id (contexts (step_thread incr 1 0 (run incr 1 [0] s0)) ! 0) =
       ctx_id (contexts (run incr 1 [0] s0) ! 0)"
    by blast+
  with su show ?thesis by (intro exI [of _ s0] conjI)
qed

section \<open>The lock protocol and the steal-check\<close>

lemma sum_list_of_bool_ge2:
  "t < t' \<Longrightarrow> t' < length xs \<Longrightarrow> P (xs ! t) \<Longrightarrow> P (xs ! t') \<Longrightarrow>
     (2::int) \<le> (\<Sum>x\<leftarrow>xs. of_bool (P x))"
proof (induction xs arbitrary: t t')
  case Nil
  then show ?case by simp
next
  case (Cons a xs)
  obtain m where m: "t' = Suc m" using Cons.prems(1) by (cases t') auto
  show ?case
  proof (cases t)
    case 0
    have "(1::int) \<le> (\<Sum>x\<leftarrow>xs. of_bool (P x))"
      by (rule sum_list_of_bool_ge [of m]) (use Cons.prems m in auto)
    then show ?thesis using Cons.prems(3) 0 by simp
  next
    case (Suc n)
    have "(2::int) \<le> (\<Sum>x\<leftarrow>xs. of_bool (P x))"
      by (rule Cons.IH [of n m]) (use Cons.prems m Suc in auto)
    then show ?thesis by simp
  qed
qed

lemma holders_exclusive:
  assumes "shape s" "lock_inv s" "t < length (frames s)" "t' < length (frames s)"
    "holds (frames s ! t) j" "holds (frames s ! t') j"
  shows "t' = t"
proof (rule ccontr)
  assume ne: "t' \<noteq> t"
  have jl: "j < length (frames s)"
    using assms(1,3,5) by (auto simp: holds_def shape_def in_steal_check_def)
  have "2 \<le> holders s j"
  proof (cases "t < t'")
    case True
    then show ?thesis unfolding holders_def
      using assms(4,5,6) by (rule sum_list_of_bool_ge2)
  next
    case False
    then have "t' < t" using ne by simp
    then show ?thesis unfolding holders_def
      using assms(3,6,5) by (rule sum_list_of_bool_ge2)
  qed
  moreover have "holders s j \<le> 1"
    using assms(1,2) jl by (simp add: lock_inv_def shape_def)
  ultimately show False by simp
qed

lemma lock_word_values:
  assumes "shape s" "lock_inv s" "j < length (frames s)"
  shows "wq_lock (workqueues s ! j) = (if \<exists>t < length (frames s). holds (frames s ! t) j then 1 else 0)"
proof (cases "\<exists>t < length (frames s). holds (frames s ! t) j")
  case True
  then show ?thesis using holder_lock [OF assms(1,2) _ assms(3)] by auto
next
  case False
  then have "\<And>fr. fr \<in> set (frames s) \<Longrightarrow> (of_bool (holds fr j) :: int) = 0"
    by (auto simp: in_set_conv_nth)
  then have "holders s j = 0" unfolding holders_def by (rule sum_list_all_zero)
  then show ?thesis using False assms by (simp add: lock_inv_def shape_def)
qed

lemma lock_step:
  assumes inv: "engine_inv A s" and t: "t < length (frames s)"
    and p: "pc (frames s ! t) = DrainLock \<or> pc (frames s ! t) = StealLock"
  shows "wq_lock (workqueues s ! lock_target (frames s ! t)) \<noteq> 0 \<Longrightarrow> step_thread f A t s = s"
    and "wq_lock (workqueues s ! lock_target (frames s ! t)) = 0 \<Longrightarrow>
           wq_lock (workqueues (step_thread f A t s) ! lock_target (frames s ! t)) = 1 \<and>
           holds (frames (step_thread f A t s) ! t) (lock_target (frames s ! t))"
proof -
  have sh: "shape s" using inv by (simp add: engine_inv_def)
  have len: "length (workqueues s) = length (frames s)" using sh by (simp add: shape_def)
  have tid: "tid (frames s ! t) = t" using sh t by (simp add: shape_def)
  from p show "wq_lock (workqueues s ! lock_target (frames s ! t)) \<noteq> 0 \<Longrightarrow> step_thread f A t s = s"
    by (auto simp: lock_target_def in_drain_check_def step_DrainLock [OF t] step_StealLock [OF t])
  assume free: "wq_lock (workqueues s ! lock_target (frames s ! t)) = 0"
  from p show "wq_lock (workqueues (step_thread f A t s) ! lock_target (frames s ! t)) = 1 \<and>
           holds (frames (step_thread f A t s) ! t) (lock_target (frames s ! t))"
  proof
    assume d: "pc (frames s ! t) = DrainLock"
    then have lt: "lock_target (frames s ! t) = t" using tid by (simp add: lock_target_def in_drain_check_def)
    show ?thesis using free t len tid unfolding lt
      by (simp add: step_DrainLock [OF t d] holds_def)
  next
    assume d: "pc (frames s ! t) = StealLock"
    then have lt: "lock_target (frames s ! t) = peer (frames s ! t)"
      by (simp add: lock_target_def in_drain_check_def)
    have pr: "peer (frames s ! t) < length (frames s)"
      using sh t d by (simp add: shape_def in_steal_check_def)
    show ?thesis using free t len pr unfolding lt
      by (simp add: step_StealLock [OF t d] holds_def)
  qed
qed

lemma unlock_step:
  assumes inv: "engine_inv A s" and t: "t < length (frames s)"
    and p: "pc (frames s ! t) = DrainUnlock \<or> pc (frames s ! t) = StealUnlockT \<or>
            pc (frames s ! t) = StealUnlockF"
  shows "holds (frames s ! t) (lock_target (frames s ! t)) \<and>
         wq_lock (workqueues s ! lock_target (frames s ! t)) = 1 \<and>
         wq_lock (workqueues (step_thread f A t s) ! lock_target (frames s ! t)) = 0 \<and>
         \<not> holds (frames (step_thread f A t s) ! t) (lock_target (frames s ! t)) \<and>
         pc (frames (step_thread f A t s) ! t) \<noteq> Trap"
proof -
  have sh: "shape s" and li: "lock_inv s" using inv by (simp_all add: engine_inv_def)
  have len: "length (workqueues s) = length (frames s)" using sh by (simp add: shape_def)
  have tid: "tid (frames s ! t) = t" using sh t by (simp add: shape_def)
  from p consider "pc (frames s ! t) = DrainUnlock" | "pc (frames s ! t) = StealUnlockT"
    | "pc (frames s ! t) = StealUnlockF" by blast
  then show ?thesis
  proof cases
    case 1
    then have lt: "lock_target (frames s ! t) = t" using tid by (simp add: lock_target_def in_drain_check_def)
    have h: "holds (frames s ! t) t" using 1 tid by (simp add: holds_def)
    have lk: "wq_lock (workqueues s ! t) = 1" by (rule holder_lock [OF sh li t t h])
    have lk': "wq_lock (workqueues s ! tid (frames s ! t)) = 1" using lk tid by simp
    show ?thesis unfolding lt using h lk t len tid
      by (simp add: step_DrainUnlock [OF t 1 lk'] holds_def)
  next
    case 2
    then have lt: "lock_target (frames s ! t) = peer (frames s ! t)"
      by (simp add: lock_target_def in_drain_check_def)
    have pr: "peer (frames s ! t) < length (frames s)"
      using sh t 2 by (simp add: shape_def in_steal_check_def)
    have h: "holds (frames s ! t) (peer (frames s ! t))" using 2 by (simp add: holds_def)
    have lk: "wq_lock (workqueues s ! peer (frames s ! t)) = 1" by (rule holder_lock [OF sh li t pr h])
    show ?thesis unfolding lt using h lk t len pr
      by (simp add: step_StealUnlockT [OF t 2 lk] holds_def)
  next
    case 3
    then have lt: "lock_target (frames s ! t) = peer (frames s ! t)"
      by (simp add: lock_target_def in_drain_check_def)
    have pr: "peer (frames s ! t) < length (frames s)"
      using sh t 3 by (simp add: shape_def in_steal_check_def)
    have h: "holds (frames s ! t) (peer (frames s ! t))" using 3 by (simp add: holds_def)
    have lk: "wq_lock (workqueues s ! peer (frames s ! t)) = 1" by (rule holder_lock [OF sh li t pr h])
    show ?thesis unfolding lt using h lk t len pr
      by (simp add: step_StealUnlockF [OF t 3 lk] holds_def)
  qed
qed

lemma Unlock_trap:
  assumes "u < length (frames r)" "wq_lock (workqueues r ! q) \<noteq> 1"
  shows "pc (frames (Unlock u q cont r) ! u) = Trap"
  using assms by (simp add: Unlock_def atomic_cmpxchg_def set_frame_def)

text \<open>
  Claim C8. \<open>Lock\<close> is one compare-and-swap of the lock word from 0 to 1 per attempt: an
  attempt that observes another value changes nothing and leaves the thread at the
  attempt, and only an attempt that observes 0 lets it go on, with the word at 1.
  \<open>Unlock\<close> is a compare-and-swap from 1 to 0 that runs into \<open>unreachable\<close> when it
  observes another value. In every state the threads of a batch of \<open>N \<ge> 1\<close> elements
  reach: no thread is in \<open>unreachable\<close>; a lock word is 1 when some thread is between
  its \<open>Lock\<close> and \<open>Unlock\<close> of that queue and 0 otherwise; no two threads are there for
  the same queue; and every \<open>Unlock\<close> observes 1, sets the word to 0 and does not trap.
\<close>

theorem lock_protocol_safe:
  assumes "1 \<le> N" and "1 \<le> T" and "T < 2 ^ 31" and "dms ! 0 = N"
    and "body_setup T ags dms sts dt m = Inr s0"
    and "s = run f A sched s0" and "t < length (frames s)"
  shows "pc (frames s ! t) \<noteq> Trap \<and>
         (\<forall>j < length (workqueues s). wq_lock (workqueues s ! j) =
             (if \<exists>u < length (frames s). holds (frames s ! u) j then 1 else 0)) \<and>
         (\<forall>u j. u < length (frames s) \<and> holds (frames s ! t) j \<and> holds (frames s ! u) j
             \<longrightarrow> u = t) \<and>
         (pc (frames s ! t) \<in> {DrainLock, StealLock} \<longrightarrow>
            (wq_lock (workqueues s ! lock_target (frames s ! t)) \<noteq> 0 \<longrightarrow>
               step_thread f A t s = s) \<and>
            (wq_lock (workqueues s ! lock_target (frames s ! t)) = 0 \<longrightarrow>
               wq_lock (workqueues (step_thread f A t s) ! lock_target (frames s ! t)) = 1 \<and>
               holds (frames (step_thread f A t s) ! t) (lock_target (frames s ! t)))) \<and>
         (pc (frames s ! t) \<in> {DrainUnlock, StealUnlockT, StealUnlockF} \<longrightarrow>
            holds (frames s ! t) (lock_target (frames s ! t)) \<and>
            wq_lock (workqueues s ! lock_target (frames s ! t)) = 1 \<and>
            wq_lock (workqueues (step_thread f A t s) ! lock_target (frames s ! t)) = 0 \<and>
            \<not> holds (frames (step_thread f A t s) ! t) (lock_target (frames s ! t)) \<and>
            pc (frames (step_thread f A t s) ! t) \<noteq> Trap) \<and>
         (\<forall>q cont. wq_lock (workqueues s ! q) \<noteq> 1 \<longrightarrow>
            pc (frames (Unlock t q cont s) ! t) = Trap)"
proof -
  have inv: "engine_inv A s" unfolding assms(6) by (rule reach_inv(1) [OF assms(1-5)])
  have sh: "shape s" and li: "lock_inv s" using inv by (simp_all add: engine_inv_def)
  have len: "length (workqueues s) = length (frames s)" using sh by (simp add: shape_def)
  show ?thesis
  proof (intro conjI allI impI)
    show "pc (frames s ! t) \<noteq> Trap" using li assms(7) by (simp add: lock_inv_def)
  next
    fix j assume "j < length (workqueues s)"
    then show "wq_lock (workqueues s ! j) =
             (if \<exists>u < length (frames s). holds (frames s ! u) j then 1 else 0)"
      using lock_word_values [OF sh li] len by simp
  next
    fix u j assume "u < length (frames s) \<and> holds (frames s ! t) j \<and> holds (frames s ! u) j"
    then show "u = t" using holders_exclusive [OF sh li assms(7)] by blast
  next
    assume p: "pc (frames s ! t) \<in> {DrainLock, StealLock}"
      and "wq_lock (workqueues s ! lock_target (frames s ! t)) \<noteq> 0"
    then show "step_thread f A t s = s"
      by (intro lock_step(1) [OF inv assms(7)]) auto
  next
    assume p: "pc (frames s ! t) \<in> {DrainLock, StealLock}"
      and z: "wq_lock (workqueues s ! lock_target (frames s ! t)) = 0"
    have "wq_lock (workqueues (step_thread f A t s) ! lock_target (frames s ! t)) = 1 \<and>
               holds (frames (step_thread f A t s) ! t) (lock_target (frames s ! t))"
      by (rule lock_step(2) [OF inv assms(7) _ z]) (use p in auto)
    then show "wq_lock (workqueues (step_thread f A t s) ! lock_target (frames s ! t)) = 1"
      and "holds (frames (step_thread f A t s) ! t) (lock_target (frames s ! t))"
      by simp_all
  next
    assume p: "pc (frames s ! t) \<in> {DrainUnlock, StealUnlockT, StealUnlockF}"
    have u: "holds (frames s ! t) (lock_target (frames s ! t)) \<and>
         wq_lock (workqueues s ! lock_target (frames s ! t)) = 1 \<and>
         wq_lock (workqueues (step_thread f A t s) ! lock_target (frames s ! t)) = 0 \<and>
         \<not> holds (frames (step_thread f A t s) ! t) (lock_target (frames s ! t)) \<and>
         pc (frames (step_thread f A t s) ! t) \<noteq> Trap"
      by (rule unlock_step [OF inv assms(7)]) (use p in auto)
    from u show "holds (frames s ! t) (lock_target (frames s ! t))" by simp
    from u show "wq_lock (workqueues s ! lock_target (frames s ! t)) = 1" by simp
    from u show "wq_lock (workqueues (step_thread f A t s) ! lock_target (frames s ! t)) = 0"
      by simp
    from u show "\<not> holds (frames (step_thread f A t s) ! t) (lock_target (frames s ! t))"
      by simp
    from u show "pc (frames (step_thread f A t s) ! t) \<noteq> Trap" by simp
  next
    fix q cont assume "wq_lock (workqueues s ! q) \<noteq> 1"
    then show "pc (frames (Unlock t q cont s) ! t) = Trap"
      by (rule Unlock_trap [OF assms(7)])
  qed
qed

theorem lock_protocol_safe_witness:
  "\<exists>s0. body_setup 1 [0, 100] [1] [8, 8] 0 mem0 = Inr s0 \<and>
     pc (frames (run incr 1 [0, 0, 0] s0) ! 0) \<noteq> Trap"
proof -
  have h: "(1::int) \<le> 1" "(1::int) < 2 ^ 31" "[1::int] ! 0 = 1" by simp_all
  have cn: "chunking 1 1 = (1, 1)" by (simp add: chunking_def)
  define s0 :: "int state" where "s0 = initial_state [0, 100] [1] [8, 8] 0 mem0 1 1"
  have su: "body_setup 1 [0, 100] [1] [8, 8] 0 mem0 = Inr s0"
    unfolding s0_def by (rule body_setup_initial [OF h(1) h(1) h(2) h(3) cn])
  have "length (frames (run incr 1 [0, 0, 0] s0)) = nat (num_thread (common s0))"
    by (rule reach_inv(3) [OF h(1) h(1) h(2) h(3) su])
  then have t: "0 < length (frames (run incr 1 [0, 0, 0] s0))" by (simp add: s0_def)
  from lock_protocol_safe [OF h(1) h(1) h(2) h(3) su refl t]
  have "pc (frames (run incr 1 [0, 0, 0] s0) ! 0) \<noteq> Trap" by blast
  with su show ?thesis by (intro exI [of _ s0] conjI)
qed

section \<open>The steal-check\<close>

lemma step_claimed_owner:
  "\<exists>l. claimed (step_thread f A t s) = claimed s @ l \<and> (\<forall>e \<in> set l. fst e = t)"
  by (cases "pc (frames s ! t)")
     (simp_all add: step_thread_def Lock_def Unlock_def atomic_cmpxchg_def drain_crit_def
        drain_unlock_def drain_work_def steal_cond_def steal_for_def steal_crit_def
        steal_unlock_then_def steal_work_def steal_unlock_else_def do_work_loop_def
        do_work_iter_def do_work_enter_def add_completed_def set_frame_def set_wq_def Let_def)

lemma qcount_ge1:
  "j < length (workqueues s) \<Longrightarrow> k \<in> wq_range (workqueues s ! j) \<Longrightarrow> 1 \<le> qcount s k"
  unfolding qcount_def by (rule sum_list_of_bool_ge)

lemma qcount_ge2:
  assumes "i < length (workqueues s)" "j < length (workqueues s)" "i \<noteq> j"
    "k \<in> wq_range (workqueues s ! i)" "k \<in> wq_range (workqueues s ! j)"
  shows "2 \<le> qcount s k"
proof (cases "i < j")
  case True
  then show ?thesis unfolding qcount_def using assms(2,4,5) by (rule sum_list_of_bool_ge2)
next
  case False
  then have "j < i" using assms(3) by simp
  then show ?thesis unfolding qcount_def using assms(1,5,4) by (rule sum_list_of_bool_ge2)
qed

lemma qcount_nonneg: "0 \<le> qcount s k"
  unfolding qcount_def by (rule sum_list_nonneg) auto

lemma lcount_ge1: "e \<in> set (claimed s) \<Longrightarrow> covers k e \<Longrightarrow> 1 \<le> lcount s k"
  by (cases "filter (covers k) (claimed s)") (auto simp: lcount_def filter_empty_conv)

lemma part_le_1: "part_inv s \<Longrightarrow> qcount s k + lcount s k \<le> 1"
  by (simp add: part_inv_def)


text \<open>An index that leaves queue \<open>j\<close> in a step is in the history after the step.\<close>

lemma step_taken_logged:
  assumes inv: "engine_inv A s" and j: "j < length (frames s)"
    and k: "k \<in> wq_range (workqueues s ! j)"
    and nk: "k \<notin> wq_range (workqueues (step_thread f A t s) ! j)"
  shows "1 \<le> lcount (step_thread f A t s) k"
proof -
  let ?s1 = "step_thread f A t s"
  have inv1: "engine_inv A ?s1" by (rule engine_inv_step [OF inv])
  have len: "length (workqueues s) = length (frames s)"
    using inv by (simp add: engine_inv_def shape_def)
  have len1: "length (workqueues ?s1) = length (frames s)"
    using step_keeps(5) [OF inv, of f t] len by simp
  have rg: "0 \<le> k \<and> k < batch_size s"
    using inv j k len by (auto simp: engine_inv_def range_inv_def wq_range_def)
  have other: "k \<notin> wq_range (workqueues s ! i)" if "i < length (frames s)" "i \<noteq> j" for i
  proof
    assume "k \<in> wq_range (workqueues s ! i)"
    then have "2 \<le> qcount s k" using qcount_ge2 [of i s j k] that j k len by simp
    moreover have "qcount s k + lcount s k \<le> 1"
      by (rule part_le_1) (use inv in \<open>simp add: engine_inv_def\<close>)
    moreover have "0 \<le> lcount s k" by (simp add: lcount_def)
    ultimately show False by simp
  qed
  have "k \<notin> wq_range (workqueues ?s1 ! i)" if "i < length (frames s)" for i
  proof (cases "i = j")
    case True
    then show ?thesis using nk by simp
  next
    case False
    from step_queue_mono [OF inv that, of f t] other [OF that False]
    show ?thesis by (auto simp: wq_range_def)
  qed
  then have "\<And>q. q \<in> set (workqueues ?s1) \<Longrightarrow> (of_bool (k \<in> wq_range q) :: int) = 0"
    using len1 by (auto simp: in_set_conv_nth)
  then have "qcount ?s1 k = 0" unfolding qcount_def by (rule sum_list_all_zero)
  moreover have "qcount ?s1 k + lcount ?s1 k = of_bool (0 \<le> k \<and> k < batch_size ?s1)"
    using inv1 by (simp add: engine_inv_def part_inv_def)
  ultimately show ?thesis using rg step_keeps(2) [OF inv, of f t] by simp
qed

text \<open>
  A queue with fewer than \<open>GRANULARITY\<close> indices left: its \<open>last\<close> stays, and whatever is
  taken from it is taken by its owner.
\<close>

lemma residual_run:
  assumes inv: "engine_inv A s" and j: "j < length (frames s)"
    and res: "wq_last (workqueues s ! j) - wq_next (workqueues s ! j) < GRANULARITY"
  shows "wq_last (workqueues (run f A sched s) ! j) = wq_last (workqueues s ! j) \<and>
         wq_next (workqueues s ! j) \<le> wq_next (workqueues (run f A sched s) ! j) \<and>
         (\<forall>k \<in> wq_range (workqueues s ! j). \<forall>e \<in> set (claimed (run f A sched s)).
             covers k e \<longrightarrow> fst e = j) \<and>
         (\<forall>k \<in> wq_range (workqueues s ! j).
             k \<notin> wq_range (workqueues (run f A sched s) ! j) \<longrightarrow>
             1 \<le> lcount (run f A sched s) k)"
proof (induction sched rule: rev_induct)
  case Nil
  have len: "length (workqueues s) = length (frames s)"
    using inv by (simp add: engine_inv_def shape_def)
  have "fst e = j" if "k \<in> wq_range (workqueues s ! j)" "e \<in> set (claimed s)" "covers k e"
    for k e
  proof -
    have "1 \<le> qcount s k" using qcount_ge1 [of j s k] that(1) j len by simp
    moreover have "1 \<le> lcount s k" using that(2,3) by (rule lcount_ge1)
    moreover have "qcount s k + lcount s k \<le> 1"
      by (rule part_le_1) (use inv in \<open>simp add: engine_inv_def\<close>)
    ultimately show ?thesis by simp
  qed
  then show ?case by auto
next
  case (snoc t sched)
  let ?s1 = "run f A sched s"
  let ?s2 = "step_thread f A t ?s1"
  have e2: "run f A (sched @ [t]) s = ?s2" by (simp add: run_append)
  have inv1: "engine_inv A ?s1" by (rule engine_inv_run [OF inv])
  have inv2: "engine_inv A ?s2" by (rule engine_inv_step [OF inv1])
  have j1: "j < length (frames ?s1)" using j run_keeps(3) [OF inv, of f sched] by simp
  have len1: "length (workqueues ?s1) = length (frames ?s1)"
    using inv1 by (simp add: engine_inv_def shape_def)
  have len2: "length (workqueues ?s2) = length (frames ?s1)"
    using step_keeps(5) [OF inv1, of f t] len1 by simp
  have p2: "qcount ?s2 k + lcount ?s2 k \<le> 1" for k
    by (rule part_le_1) (use inv2 in \<open>simp add: engine_inv_def\<close>)
  have l1: "wq_last (workqueues ?s1 ! j) = wq_last (workqueues s ! j)"
    and n1: "wq_next (workqueues s ! j) \<le> wq_next (workqueues ?s1 ! j)"
    and o1: "\<And>k e. k \<in> wq_range (workqueues s ! j) \<Longrightarrow> e \<in> set (claimed ?s1) \<Longrightarrow>
               covers k e \<Longrightarrow> fst e = j"
    and c1: "\<And>k. k \<in> wq_range (workqueues s ! j) \<Longrightarrow> k \<notin> wq_range (workqueues ?s1 ! j) \<Longrightarrow>
               1 \<le> lcount ?s1 k"
    using snoc.IH by simp_all
  have res1: "wq_last (workqueues ?s1 ! j) - wq_next (workqueues ?s1 ! j) < GRANULARITY"
    using res l1 n1 by simp
  from step_claimed_owner [of f A t ?s1]
  obtain l where l: "claimed ?s2 = claimed ?s1 @ l" and lo: "\<forall>e \<in> set l. fst e = t" by blast
  have lc: "lcount ?s1 k \<le> lcount ?s2 k" for k by (simp add: lcount_def l)
  from step_queue [OF inv1 j1, of f t] res1
  consider
    (same) "wq_next (workqueues ?s2 ! j) = wq_next (workqueues ?s1 ! j)"
           "wq_last (workqueues ?s2 ! j) = wq_last (workqueues ?s1 ! j)"
  | (drain) "t = j" "wq_last (workqueues ?s2 ! j) = wq_last (workqueues ?s1 ! j)"
    by auto
  note q = this
  have l2: "wq_last (workqueues ?s2 ! j) = wq_last (workqueues s ! j)"
    using q l1 by cases simp_all
  have n2: "wq_next (workqueues s ! j) \<le> wq_next (workqueues ?s2 ! j)"
    using n1 step_queue_mono(1) [OF inv1 j1, of f t] by simp
  have o2: "fst e = j"
    if k: "k \<in> wq_range (workqueues s ! j)" and e: "e \<in> set (claimed ?s2)" and c: "covers k e"
    for k e
  proof (cases "e \<in> set (claimed ?s1)")
    case True
    then show ?thesis using o1 k c by blast
  next
    case False
    then have el: "e \<in> set l" using e l by simp
    then have ft: "fst e = t" using lo by simp
    have new: "lcount ?s1 k + 1 \<le> lcount ?s2 k"
    proof -
      have "filter (covers k) l \<noteq> []" using el c by (auto simp: filter_empty_conv)
      then have "1 \<le> length (filter (covers k) l)" by (cases "filter (covers k) l") simp_all
      then show ?thesis by (simp add: lcount_def l)
    qed
    show ?thesis
    proof (cases "k \<in> wq_range (workqueues ?s1 ! j)")
      case False
      then have "1 \<le> lcount ?s1 k" using c1 k by simp
      then have "2 \<le> lcount ?s2 k" using new by simp
      moreover have "0 \<le> qcount ?s2 k" by (rule qcount_nonneg)
      ultimately show ?thesis using p2 [of k] by simp
    next
      case True
      from q show ?thesis
      proof cases
        case same
        then have "k \<in> wq_range (workqueues ?s2 ! j)" using True by (simp add: wq_range_def)
        then have "1 \<le> qcount ?s2 k" using qcount_ge1 [of j ?s2 k] j1 len2 by simp
        moreover have "1 \<le> lcount ?s2 k" using e c by (rule lcount_ge1)
        ultimately show ?thesis using p2 [of k] by simp
      next
        case drain
        then show ?thesis using ft by simp
      qed
    qed
  qed
  have c2: "1 \<le> lcount ?s2 k"
    if k: "k \<in> wq_range (workqueues s ! j)" and nk: "k \<notin> wq_range (workqueues ?s2 ! j)" for k
  proof (cases "k \<in> wq_range (workqueues ?s1 ! j)")
    case True
    then show ?thesis using nk by (rule step_taken_logged [OF inv1 j1])
  next
    case False
    then have "1 \<le> lcount ?s1 k" using c1 k by simp
    then show ?thesis using lc [of k] by simp
  qed
  show ?case unfolding e2 using l2 n2 o2 c2 by blast
qed








section \<open>Batches with fewer elements than threads\<close>

lemma inflight_nonneg: "frame_ok c A fr \<Longrightarrow> 0 \<le> inflight fr"
  by (auto simp: inflight_def frame_ok_def in_work_def GRANULARITY_def)

lemma one_each_step:
  assumes inv: "engine_inv A s" and oe: "one_each s"
  shows "one_each (step_thread f A t s)"
proof (cases "enabled s t")
  case False
  then show ?thesis using oe by (simp add: step_not_enabled)
next
  case True
  then have t: "t < length (frames s)" by (simp add: enabled_def)
  have sh: "shape s" using inv by (simp add: engine_inv_def)
  have lw: "length (workqueues s) = length (frames s)"
    and lc: "length (contexts s) = length (frames s)" using sh by (simp_all add: shape_def)
  from step_cases [OF inv True, of f]
  obtain fr' j q' c' m' l where sp: "step_spec f A s t fr' j q' c' m' l" by blast
  then have e: "step_thread f A t s = upd t fr' j q' c' m' l s"
    and lok: "local_ok A s t fr' j q' c' l"
    and lf: "local_frame s t fr' j q' c'" and j: "j < length (frames s)"
    by (simp_all add: step_spec_def)
  have acc: "completed c' + inflight fr' + (wq_last q' - wq_next q') =
       completed (contexts s ! t) + inflight (frames s ! t) +
       (wq_last (workqueues s ! j) - wq_next (workqueues s ! j))"
    using lok by (simp add: local_ok_def)
  have mono: "completed (contexts s ! t) \<le> completed c'" using lf by (simp add: local_frame_def)
  have o: "0 \<le> completed (contexts s ! u) \<and>
        completed (contexts s ! u) + inflight (frames s ! u) +
          (wq_last (workqueues s ! u) - wq_next (workqueues s ! u)) = 1"
    if "u < length (frames s)" for u using oe that by (simp add: one_each_def)
  have "frame_ok (common s) A (frames s ! j)"
    using inv j by (simp add: engine_inv_def frame_inv_def)
  then have "0 \<le> inflight (frames s ! j)" by (rule inflight_nonneg)
  then have small: "wq_last (workqueues s ! j) - wq_next (workqueues s ! j) \<le> 1"
    using o [OF j] by linarith
  have same: "wq_next q' = wq_next (workqueues s ! j) \<and> wq_last q' = wq_last (workqueues s ! j)"
    if "j \<noteq> t"
    using lf that small by (auto simp: local_frame_def GRANULARITY_def)
  show ?thesis unfolding e one_each_def
  proof (intro allI impI)
    fix u assume "u < length (frames (upd t fr' j q' c' m' l s))"
    then have u: "u < length (frames s)" by simp
    consider "u = t" "j = t" | "u = t" "j \<noteq> t" | "u \<noteq> t" "u = j" | "u \<noteq> t" "u \<noteq> j" by blast
    then show "0 \<le> completed (contexts (upd t fr' j q' c' m' l s) ! u) \<and>
        completed (contexts (upd t fr' j q' c' m' l s) ! u) +
        inflight (frames (upd t fr' j q' c' m' l s) ! u) +
          (wq_last (workqueues (upd t fr' j q' c' m' l s) ! u) -
           wq_next (workqueues (upd t fr' j q' c' m' l s) ! u)) = 1"
    proof cases
      case 1
      then show ?thesis using u lw lc acc mono o [OF t] by (simp add: nth_upd)
    next
      case 2
      then show ?thesis using u lw lc acc mono o [OF t] same by (simp add: nth_upd)
    next
      case 3
      then show ?thesis using u lw lc o [OF u] same by (simp add: nth_upd)
    next
      case 4
      then show ?thesis using u lw lc o [OF u] by (simp add: nth_upd)
    qed
  qed
qed

lemma one_each_run:
  assumes "engine_inv A s" "one_each s"
  shows "one_each (run f A sched s)"
  using assms
  by (induction sched arbitrary: s) (simp_all add: one_each_step engine_inv_step)

lemma one_each_initial:
  assumes "1 \<le> n" "dms ! 0 = n"
  shows "one_each (initial_state ags dms sts dt m 1 n)"
  unfolding one_each_def
proof (intro allI impI)
  fix t assume "t < length (frames (initial_state ags dms sts dt m 1 n))"
  then have t: "t < nat n" by (simp add: initial_state_def populate_context_def)
  then have "int t + 1 = n" if "t = nat n - 1" using that assms(1) by simp
  then show "0 \<le> completed (contexts (initial_state ags dms sts dt m 1 n) ! t) \<and>
        completed (contexts (initial_state ags dms sts dt m 1 n) ! t) +
        inflight (frames (initial_state ags dms sts dt m 1 n) ! t) +
          (wq_last (workqueues (initial_state ags dms sts dt m 1 n) ! t) -
           wq_next (workqueues (initial_state ags dms sts dt m 1 n) ! t)) = 1"
    using t assms(2)
    by (simp add: initial_frame_nth initial_context_nth initial_wqs_nth inflight_def)
qed

lemma one_each_no_steal:
  assumes inv: "engine_inv A s" and oe: "one_each s" and t: "t < length (frames s)"
  shows "pc (frames s ! t) \<noteq> StealUnlockT" and "pc (frames s ! t) \<noteq> StealWork"
proof -
  have "wq_next (workqueues s ! t) \<le> wq_last (workqueues s ! t)"
    using inv t by (simp add: engine_inv_def range_inv_def shape_def)
  moreover have "0 \<le> completed (contexts s ! t) \<and>
        completed (contexts s ! t) + inflight (frames s ! t) +
          (wq_last (workqueues s ! t) - wq_next (workqueues s ! t)) = 1"
    using oe t by (simp add: one_each_def)
  ultimately have "inflight (frames s ! t) \<le> 1" by linarith
  then show "pc (frames s ! t) \<noteq> StealUnlockT" and "pc (frames s ! t) \<noteq> StealWork"
    by (auto simp: inflight_def GRANULARITY_def)
qed

lemma one_each_returned:
  assumes inv: "engine_inv A s" and oe: "one_each s" and ar: "all_returned s"
    and t: "t < length (frames s)"
  shows "completed (contexts s ! t) = 1"
proof -
  have "length (workqueues s) = length (frames s)"
    using inv by (simp add: engine_inv_def shape_def)
  then have "workqueues s ! t \<in> set (workqueues s)" using t by simp
  then have "wq_next (workqueues s ! t) = wq_last (workqueues s ! t)"
    by (rule returned_queue_empty [OF inv ar])
  moreover have "inflight (frames s ! t) = 0"
  proof -
    have "pc (frames s ! t) = Ret" using ar t by (simp add: all_returned_def)
    then show ?thesis by (simp add: inflight_def)
  qed
  moreover have "completed (contexts s ! t) + inflight (frames s ! t) +
          (wq_last (workqueues s ! t) - wq_next (workqueues s ! t)) = 1"
    using oe t by (simp add: one_each_def)
  ultimately show ?thesis by linarith
qed

lemma degenerate_chunking:
  assumes "1 \<le> N" "N < T" "T < 2 ^ 31"
  shows "chunking N T = (1, N)"
proof -
  have "1 \<le> T" using assms by simp
  from chunking_cases [OF assms(1) this assms(3)] assms show ?thesis by simp
qed


text \<open>
  Claim C9. For a batch of \<open>0 < N < T\<close> elements the dispatcher sets the chunk
  size to 1 and the number of threads to \<open>N\<close>: it creates \<open>N\<close> queues, contexts and
  worker threads and no others, and the queue of thread \<open>i\<close> holds the one index \<open>i\<close>.
  Under every schedule no steal-check of these threads succeeds and every range taken that
  contains an index \<open>k\<close> of the batch was taken by thread \<open>k\<close>; when all threads have
  returned, \<open>body\<close> comes back, every index has been taken exactly once and every thread has
  \<open>completed = 1\<close>; and under every fair schedule with more than
  \<open>(N + 5) * N + N * (4 * N + 6)\<close> rounds all threads return.
\<close>

theorem degenerate_batch_one_each:
  assumes "1 \<le> N" and "N < T" and "T < 2 ^ 31" and "dms ! 0 = N"
  shows "\<exists>s0. body_setup T ags dms sts dt m = Inr s0 \<and>
           num_thread (common s0) = N \<and>
           length (workqueues s0) = nat N \<and> length (contexts s0) = nat N \<and>
           length (frames s0) = nat N \<and>
           (\<forall>i < nat N. workqueues s0 ! i =
              \<lparr>wq_next = int i, wq_last = int i + 1, wq_lock = 0\<rparr>) \<and>
           (\<forall>sched.
              length (frames (run f A sched s0)) = nat N \<and>
              (\<forall>t < nat N. pc (frames (run f A sched s0) ! t) \<noteq> StealUnlockT \<and>
                            pc (frames (run f A sched s0) ! t) \<noteq> StealWork) \<and>
              (\<forall>k e. 0 \<le> k \<and> k < N \<and> e \<in> set (claimed (run f A sched s0)) \<and> covers k e
                   \<longrightarrow> fst e = nat k) \<and>
              (all_returned (run f A sched s0) \<longrightarrow>
                 body f A sched T ags dms sts dt m = Some (Inr (run f A sched s0)) \<and>
                 (\<forall>k. 0 \<le> k \<and> k < N \<longrightarrow>
                    length (filter (covers k) (claimed (run f A sched s0))) = 1) \<and>
                 (\<forall>t < nat N. completed (contexts (run f A sched s0) ! t) = 1))) \<and>
           (\<forall>rounds. fair_rounds (nat N) rounds \<and>
                      (N + 5) * N + N * (4 * N + 6) < int (length rounds) \<longrightarrow>
                    all_returned (run f A (concat rounds) s0))"
proof -
  let ?ini = "initial_state ags dms sts dt m 1 N :: 'a state"
  have T1: "1 \<le> T" using assms(1,2) by simp
  note cn = degenerate_chunking [OF assms(1-3)]
  have i0: "engine_inv A ?ini"
    by (rule engine_inv_initial) (use assms(1,4) in simp_all)
  have o0: "one_each ?ini" by (rule one_each_initial [OF assms(1,4)])
  have su: "body_setup T ags dms sts dt m = Inr ?ini"
    by (rule body_setup_initial [OF assms(1) T1 assms(3,4) cn])
  have len0: "length (frames ?ini) = nat N" by (simp add: initial_state_def populate_context_def)
  have wq0: "workqueues ?ini ! i = \<lparr>wq_next = int i, wq_last = int i + 1, wq_lock = 0\<rparr>"
    if "i < nat N" for i
  proof -
    have "int i + 1 = N" if "i = nat N - 1" using that assms(1) by simp
    then show ?thesis using that assms(4) by (simp add: initial_wqs_nth)
  qed
  have mu0: "mu ?ini = (N + 5) * N + N * (4 * N + 6)"
    unfolding mu_initial [OF assms(1)] assms(4) by (rule refl)
  have inv: "engine_inv A (run f A sched ?ini)" for sched by (rule engine_inv_run [OF i0])
  have oe: "one_each (run f A sched ?ini)" for sched by (rule one_each_run [OF i0 o0])
  have len: "length (frames (run f A sched ?ini)) = nat N" for sched
    using run_keeps(3) [OF i0, of f sched] len0 by simp
  have ns: "pc (frames (run f A sched ?ini) ! t) \<noteq> StealUnlockT \<and>
            pc (frames (run f A sched ?ini) ! t) \<noteq> StealWork" if "t < nat N" for sched t
    using one_each_no_steal [OF inv [of sched] oe [of sched], of t] that len [of sched] by simp
  have own: "fst e = nat k"
    if "0 \<le> k \<and> k < N \<and> e \<in> set (claimed (run f A sched ?ini)) \<and> covers k e" for sched k e
  proof -
    have j: "nat k < length (frames ?ini)" using that len0 by simp
    have kn: "nat k < nat N" using that by simp
    have res: "wq_last (workqueues ?ini ! nat k) - wq_next (workqueues ?ini ! nat k) < GRANULARITY"
      unfolding wq0 [OF kn] by (simp add: GRANULARITY_def)
    have kr: "k \<in> wq_range (workqueues ?ini ! nat k)"
      unfolding wq0 [OF kn] using that by (simp add: wq_range_def)
    from residual_run [OF i0 j res, of f sched] kr that show ?thesis by blast
  qed
  have fin: "body f A sched T ags dms sts dt m = Some (Inr (run f A sched ?ini)) \<and>
      (\<forall>k. 0 \<le> k \<and> k < N \<longrightarrow> length (filter (covers k) (claimed (run f A sched ?ini))) = 1) \<and>
      (\<forall>t < nat N. completed (contexts (run f A sched ?ini) ! t) = 1)"
    if ar: "all_returned (run f A sched ?ini)" for sched
  proof (intro conjI allI impI)
    show "body f A sched T ags dms sts dt m = Some (Inr (run f A sched ?ini))"
      by (rule body_returns [OF assms(1) T1 assms(3,4) cn ar])
  next
    fix k assume k: "0 \<le> k \<and> k < N"
    have "batch_size (run f A sched ?ini) = N"
      using run_keeps(2) [OF i0, of f sched] assms(4) by simp
    then show "length (filter (covers k) (claimed (run f A sched ?ini))) = 1"
      using returned_partition [OF inv ar, of k] k by simp
  next
    fix t assume "t < nat N"
    then have "t < length (frames (run f A sched ?ini))" using len [of sched] by simp
    then show "completed (contexts (run f A sched ?ini) ! t) = 1"
      by (rule one_each_returned [OF inv oe ar])
  qed
  have ft: "all_returned (run f A (concat rounds) ?ini)"
    if "fair_rounds (nat N) rounds \<and> (N + 5) * N + N * (4 * N + 6) < int (length rounds)"
    for rounds
    by (rule fair_terminates [OF i0]) (use that mu0 len0 in simp_all)
  show ?thesis
  proof (intro exI [of _ ?ini] conjI allI impI)
    show "body_setup T ags dms sts dt m = Inr ?ini" by (rule su)
    show "num_thread (common ?ini) = N" by simp
    show "length (workqueues ?ini) = nat N" by simp
    show "length (contexts ?ini) = nat N" by (simp add: initial_state_def populate_context_def)
    show "length (frames ?ini) = nat N" by (rule len0)
    show "\<And>i. i < nat N \<Longrightarrow> workqueues ?ini ! i =
              \<lparr>wq_next = int i, wq_last = int i + 1, wq_lock = 0\<rparr>" by (rule wq0)
    show "\<And>sched. length (frames (run f A sched ?ini)) = nat N" by (rule len)
    show "\<And>sched t. t < nat N \<Longrightarrow> pc (frames (run f A sched ?ini) ! t) \<noteq> StealUnlockT"
      using ns by blast
    show "\<And>sched t. t < nat N \<Longrightarrow> pc (frames (run f A sched ?ini) ! t) \<noteq> StealWork"
      using ns by blast
    show "\<And>sched k e. 0 \<le> k \<and> k < N \<and> e \<in> set (claimed (run f A sched ?ini)) \<and> covers k e
            \<Longrightarrow> fst e = nat k" by (rule own)
    show "\<And>sched. all_returned (run f A sched ?ini) \<Longrightarrow>
            body f A sched T ags dms sts dt m = Some (Inr (run f A sched ?ini))"
      using fin by blast
    show "\<And>sched k. all_returned (run f A sched ?ini) \<Longrightarrow> 0 \<le> k \<and> k < N \<Longrightarrow>
            length (filter (covers k) (claimed (run f A sched ?ini))) = 1"
      using fin by blast
    show "\<And>sched t. all_returned (run f A sched ?ini) \<Longrightarrow> t < nat N \<Longrightarrow>
            completed (contexts (run f A sched ?ini) ! t) = 1"
      using fin by blast
    show "\<And>rounds. fair_rounds (nat N) rounds \<and>
                      (N + 5) * N + N * (4 * N + 6) < int (length rounds) \<Longrightarrow>
                    all_returned (run f A (concat rounds) ?ini)" by (rule ft)
  qed
qed


theorem degenerate_batch_one_each_witness:
  "\<exists>s0. body_setup 4 [0, 100] [1] [8, 8] 0 mem0 = Inr s0 \<and>
        length (frames s0) = 1 \<and>
        all_returned (run incr 1 (concat (replicate 17 [0])) s0) \<and>
        completed (contexts (run incr 1 (concat (replicate 17 [0])) s0) ! 0) = 1"
proof -
  have h: "(1::int) \<le> 1" "(1::int) < 4" "(4::int) < 2 ^ 31" "[1::int] ! 0 = 1" by simp_all
  from degenerate_batch_one_each [OF h, of "[0, 100]" "[8, 8]" 0 mem0 incr 1]
  obtain s0 where su: "body_setup 4 [0, 100] [1] [8, 8] 0 mem0 = Inr s0"
    and len: "length (frames s0) = nat 1"
    and fin: "\<forall>sched.
              length (frames (run incr 1 sched s0)) = nat 1 \<and>
              (\<forall>t < nat 1. pc (frames (run incr 1 sched s0) ! t) \<noteq> StealUnlockT \<and>
                            pc (frames (run incr 1 sched s0) ! t) \<noteq> StealWork) \<and>
              (\<forall>k e. 0 \<le> k \<and> k < 1 \<and> e \<in> set (claimed (run incr 1 sched s0)) \<and> covers k e
                   \<longrightarrow> fst e = nat k) \<and>
              (all_returned (run incr 1 sched s0) \<longrightarrow>
                 body incr 1 sched 4 [0, 100] [1] [8, 8] 0 mem0 = Some (Inr (run incr 1 sched s0)) \<and>
                 (\<forall>k. 0 \<le> k \<and> k < 1 \<longrightarrow>
                    length (filter (covers k) (claimed (run incr 1 sched s0))) = 1) \<and>
                 (\<forall>t < nat 1. completed (contexts (run incr 1 sched s0) ! t) = 1))"
    and ft: "\<forall>rounds. fair_rounds (nat 1) rounds \<and>
                      (1 + 5) * 1 + 1 * (4 * 1 + 6) < int (length rounds) \<longrightarrow>
                    all_returned (run incr 1 (concat rounds) s0)"
    by (elim exE conjE)
  have "fair_rounds (nat 1) (replicate 17 [0]) \<and>
      (1 + 5) * 1 + 1 * (4 * 1 + 6) < int (length (replicate 17 [0::nat]))"
    by (simp add: fair_rounds_def)
  from ft [rule_format, OF this]
  have ar: "all_returned (run incr 1 (concat (replicate 17 [0])) s0)" .
  have "\<forall>t < nat 1. completed (contexts (run incr 1 (concat (replicate 17 [0])) s0) ! t) = 1"
    using fin [rule_format, of "concat (replicate 17 [0])"] ar by blast
  then have c: "completed (contexts (run incr 1 (concat (replicate 17 [0])) s0) ! 0) = 1"
    by simp
  have l: "length (frames s0) = 1" using len by simp
  from su l ar c show ?thesis by (intro exI [of _ s0] conjI)
qed

text \<open>
  Claim C9 as stated has \<open>T - N\<close> further threads that find their queues empty. There are
  none: with \<open>T = 4\<close> and \<open>N = 1\<close> the dispatcher creates one queue, one context and one
  thread.
\<close>

theorem degenerate_batch_no_idle_threads:
  "body_setup 4 [0, 100] [1] [8, 8] 0 mem0 =
     Inr (initial_state [0, 100] [1] [8, 8] 0 mem0 1 1) \<and>
   length (frames (initial_state [0, 100] [1] [8, 8] 0 mem0 1 1)) = 1 \<and>
   length (workqueues (initial_state [0, 100] [1] [8, 8] 0 mem0 1 1)) = 1 \<and>
   length (contexts (initial_state [0, 100] [1] [8, 8] 0 mem0 1 1)) = 1"
proof -
  have h: "(1::int) \<le> 1" "(1::int) \<le> 4" "(4::int) < 2 ^ 31" "[1::int] ! 0 = 1" by simp_all
  have cn: "chunking 1 4 = (1, 1)" by (rule degenerate_chunking) simp_all
  have "body_setup 4 [0, 100] [1] [8, 8] 0 mem0 =
     Inr (initial_state [0, 100] [1] [8, 8] 0 mem0 1 1)"
    by (rule body_setup_initial [OF h cn])
  then show ?thesis by (simp add: initial_state_def populate_context_def)
qed

end
